theory Spec2Isabelle
  imports Main "HOL-Library.Word"
begin

unbundle bit_operations_syntax

section \<open>The handle codec (\<^verbatim>\<open>fd_token.h\<close>, class \<^verbatim>\<open>FdToken\<close>)\<close>

text \<open>
  A handle is a 64-bit unsigned integer laid out as
  \<^verbatim>\<open>[ type:8 | generation:24 | position:32 ]\<close>. The C++ types
  \<^verbatim>\<open>std::uint8_t\<close>, \<^verbatim>\<open>std::uint32_t\<close> and \<^verbatim>\<open>std::uint64_t\<close> are the
  word types of the same width, and \<^verbatim>\<open>std::size_t\<close> is taken to be 64 bits wide;
  \<^verbatim>\<open><<\<close> is \<open>push_bit\<close>, \<^verbatim>\<open>>>\<close> is \<open>drop_bit\<close>, a \<^verbatim>\<open>static_cast\<close> between unsigned
  types is \<open>ucast\<close>, and arithmetic wraps around as it does in C++.
\<close>

type_synonym raw_type = "64 word"

type_synonym size_t = "64 word"

definition kPositionBits :: nat where "kPositionBits = 32"

definition kGenerationBits :: nat where "kGenerationBits = 24"

definition kTypeBits :: nat where "kTypeBits = 8"

definition kPositionMask :: raw_type where
  "kPositionMask = push_bit kPositionBits 1 - 1"

definition kGenerationMask :: raw_type where
  "kGenerationMask = push_bit kPositionBits (push_bit kGenerationBits 1 - 1)"

definition kTypeMask :: raw_type where
  "kTypeMask = push_bit (kPositionBits + kGenerationBits) (push_bit kTypeBits 1 - 1)"

definition kNull :: raw_type where "kNull = 0"

definition Make :: "8 word \<Rightarrow> 32 word \<Rightarrow> 32 word \<Rightarrow> raw_type" where
  "Make type generation position =
     (let t = push_bit (kPositionBits + kGenerationBits) (ucast type) AND kTypeMask;
          g = push_bit kPositionBits (ucast generation) AND kGenerationMask;
          p = ucast position AND kPositionMask
      in t OR g OR p)"

definition Type :: "raw_type \<Rightarrow> 8 word" where
  "Type token = ucast (drop_bit (kPositionBits + kGenerationBits) (token AND kTypeMask))"

definition Generation :: "raw_type \<Rightarrow> 32 word" where
  "Generation token = ucast (drop_bit kPositionBits (token AND kGenerationMask))"

definition Position :: "raw_type \<Rightarrow> 32 word" where
  "Position token = ucast (token AND kPositionMask)"

definition IsNull :: "raw_type \<Rightarrow> bool" where
  "IsNull token = (token = kNull)"

section \<open>The flat index (\<^verbatim>\<open>detail/flat_index_map.h\<close>, class \<^verbatim>\<open>FlatIndexMap\<close>)\<close>

text \<open>
  The table is a list of entries and the member variables are the fields of a record;
  every member function takes the map and returns what the C++ function returns together
  with the updated map. \<open>Find\<close> returns \<open>Some\<close> of the stored index where the source
  returns true and writes the out-parameter. The three probing loops run at most
  \<^verbatim>\<open>table_.size()\<close> times and are recursive functions on the number of iterations left.
  The hasher is a field of the map, \<^verbatim>\<open>KeyEqual\<close> is equality, and the default-constructed
  key of an empty entry is a parameter of \<open>Init\<close>.
\<close>

type_synonym mapped_type = "32 word"

definition NextPowerOfTwo :: "size_t \<Rightarrow> size_t" where
  "NextPowerOfTwo n =
     (if n \<le> 1 then 1
      else let n = n - 1;
               n = n OR drop_bit 1 n;
               n = n OR drop_bit 2 n;
               n = n OR drop_bit 4 n;
               n = n OR drop_bit 8 n;
               n = n OR drop_bit 16 n;
               n = n OR drop_bit 32 n
           in n + 1)"

datatype entry_state = kEmpty | kOccupied | kDeleted

record 'k Entry =
  e_key :: 'k
  e_value :: mapped_type
  e_state :: entry_state

record 'k FlatIndexMap =
  ix_table :: "'k Entry list"
  ix_mask :: size_t
  ix_max_entries :: size_t
  ix_size :: size_t
  ix_tombstones :: size_t
  ix_hasher :: "'k \<Rightarrow> size_t"

definition kNpos :: size_t where "kNpos = - 1"

definition Init :: "'k \<Rightarrow> 'k FlatIndexMap \<Rightarrow> size_t \<Rightarrow> 'k FlatIndexMap" where
  "Init default_key m max_entries =
     (let max_entries = (if max_entries = 0 then 1 else max_entries);
          capacity = NextPowerOfTwo (max_entries * 2)
      in m\<lparr>ix_max_entries := max_entries,
           ix_table := replicate (unat capacity) \<lparr>e_key = default_key, e_value = 0, e_state = kEmpty\<rparr>,
           ix_mask := capacity - 1,
           ix_size := 0,
           ix_tombstones := 0\<rparr>)"

definition ProbeStart :: "'k FlatIndexMap \<Rightarrow> 'k \<Rightarrow> size_t" where
  "ProbeStart m k = ix_hasher m k AND ix_mask m"

definition NextIndex :: "'k FlatIndexMap \<Rightarrow> size_t \<Rightarrow> size_t" where
  "NextIndex m idx = (idx + 1) AND ix_mask m"

definition CanInsertNew :: "'k FlatIndexMap \<Rightarrow> bool" where
  "CanInsertNew m = (ix_size m < ix_max_entries m)"

definition InsertAt :: "'k FlatIndexMap \<Rightarrow> size_t \<Rightarrow> 'k \<Rightarrow> mapped_type \<Rightarrow> bool \<times> 'k FlatIndexMap" where
  "InsertAt m idx k v =
     (let entry = ix_table m ! unat idx in
      if e_state entry = kOccupied then
        (True, m\<lparr>ix_table := (ix_table m)[unat idx := entry\<lparr>e_value := v\<rparr>]\<rparr>)
      else if \<not> CanInsertNew m then (False, m)
      else
        (True, m\<lparr>ix_tombstones := (if e_state entry = kDeleted then ix_tombstones m - 1 else ix_tombstones m),
                 ix_table := (ix_table m)[unat idx := entry\<lparr>e_key := k, e_value := v, e_state := kOccupied\<rparr>],
                 ix_size := ix_size m + 1\<rparr>))"

fun Find_loop :: "'k FlatIndexMap \<Rightarrow> 'k \<Rightarrow> size_t \<Rightarrow> nat \<Rightarrow> mapped_type option" where
  "Find_loop m k idx 0 = None"
| "Find_loop m k idx (Suc n) =
     (let entry = ix_table m ! unat idx in
      if e_state entry = kEmpty then None
      else if e_state entry = kOccupied \<and> e_key entry = k then Some (e_value entry)
      else Find_loop m k (NextIndex m idx) n)"

definition Find :: "'k FlatIndexMap \<Rightarrow> 'k \<Rightarrow> mapped_type option" where
  "Find m k =
     (if ix_table m = [] then None
      else Find_loop m k (ProbeStart m k) (length (ix_table m)))"

fun Insert_loop ::
  "'k FlatIndexMap \<Rightarrow> 'k \<Rightarrow> mapped_type \<Rightarrow> size_t \<Rightarrow> size_t \<Rightarrow> nat \<Rightarrow> bool \<times> 'k FlatIndexMap" where
  "Insert_loop m k v idx first_deleted 0 =
     (if first_deleted \<noteq> kNpos then InsertAt m first_deleted k v else (False, m))"
| "Insert_loop m k v idx first_deleted (Suc n) =
     (let entry = ix_table m ! unat idx in
      if e_state entry = kEmpty then
        InsertAt m (if first_deleted = kNpos then idx else first_deleted) k v
      else if e_state entry = kDeleted then
        Insert_loop m k v (NextIndex m idx) (if first_deleted = kNpos then idx else first_deleted) n
      else if e_key entry = k then
        (True, m\<lparr>ix_table := (ix_table m)[unat idx := entry\<lparr>e_value := v\<rparr>]\<rparr>)
      else Insert_loop m k v (NextIndex m idx) first_deleted n)"

definition IndexInsert :: "'k FlatIndexMap \<Rightarrow> 'k \<Rightarrow> mapped_type \<Rightarrow> bool \<times> 'k FlatIndexMap" where
  "IndexInsert m k v =
     (if ix_table m = [] then (False, m)
      else Insert_loop m k v (ProbeStart m k) kNpos (length (ix_table m)))"

fun Erase_loop :: "'k FlatIndexMap \<Rightarrow> 'k \<Rightarrow> size_t \<Rightarrow> nat \<Rightarrow> bool \<times> 'k FlatIndexMap" where
  "Erase_loop m k idx 0 = (False, m)"
| "Erase_loop m k idx (Suc n) =
     (let entry = ix_table m ! unat idx in
      if e_state entry = kEmpty then (False, m)
      else if e_state entry = kOccupied \<and> e_key entry = k then
        (True, m\<lparr>ix_table := (ix_table m)[unat idx := entry\<lparr>e_state := kDeleted\<rparr>],
                 ix_size := ix_size m - 1,
                 ix_tombstones := ix_tombstones m + 1\<rparr>)
      else Erase_loop m k (NextIndex m idx) n)"

definition IndexErase :: "'k FlatIndexMap \<Rightarrow> 'k \<Rightarrow> bool \<times> 'k FlatIndexMap" where
  "IndexErase m k =
     (if ix_table m = [] then (False, m)
      else Erase_loop m k (ProbeStart m k) (length (ix_table m)))"

definition FlatIndexMap_default :: "('k \<Rightarrow> size_t) \<Rightarrow> 'k FlatIndexMap" where
  "FlatIndexMap_default h =
     \<lparr>ix_table = [], ix_mask = 0, ix_max_entries = 0, ix_size = 0, ix_tombstones = 0, ix_hasher = h\<rparr>"

section \<open>The single-owner cache (\<^verbatim>\<open>fd_kv_cache_single.h\<close>, class \<^verbatim>\<open>FdKVCache\<close>)\<close>

text \<open>
  The cache is a record of its member variables and every member function returns its
  result together with the updated cache. \<^verbatim>\<open>free_positions_\<close> is a list whose last element
  is the back of the vector. \<open>Get\<close> returns \<open>Some\<close> of the stored value where the source
  returns a pointer to it and \<open>None\<close> where it returns \<^verbatim>\<open>nullptr\<close>. Default-constructed keys
  and values are parameters of the constructor and of \<open>Reserve\<close>.
\<close>

record ('k, 'v) Slot =
  s_key :: 'k
  s_value :: 'v
  s_generation :: "32 word"
  s_type :: "8 word"
  s_occupied :: "8 word"
  s_reserved :: "16 word"

record ('k, 'v) FdKVCache =
  c_slots :: "('k, 'v) Slot list"
  c_free_positions :: "32 word list"
  c_key_to_position :: "'k FlatIndexMap"
  c_next_unused :: "32 word"
  c_size :: size_t

definition kInvalidPosition :: "32 word" where
  "kInvalidPosition = 0xffffffff"

definition kMaxGeneration :: "32 word" where
  "kMaxGeneration = push_bit kGenerationBits 1 - 1"

definition Slot_default :: "'k \<Rightarrow> 'v \<Rightarrow> ('k, 'v) Slot" where
  "Slot_default default_key default_value =
     \<lparr>s_key = default_key, s_value = default_value, s_generation = 1, s_type = 0,
      s_occupied = 0, s_reserved = 0\<rparr>"

definition Reserve :: "'k \<Rightarrow> 'v \<Rightarrow> ('k, 'v) FdKVCache \<Rightarrow> size_t \<Rightarrow> ('k, 'v) FdKVCache" where
  "Reserve default_key default_value c n =
     (let n = (if n = 0 then 1 else n)
      in c\<lparr>c_slots := replicate (unat n) (Slot_default default_key default_value),
           c_free_positions := [],
           c_key_to_position := Init default_key (c_key_to_position c) n,
           c_next_unused := 0,
           c_size := 0\<rparr>)"

definition FdKVCache_new :: "('k \<Rightarrow> size_t) \<Rightarrow> 'k \<Rightarrow> 'v \<Rightarrow> size_t \<Rightarrow> ('k, 'v) FdKVCache" where
  "FdKVCache_new h default_key default_value reserve_hint =
     Reserve default_key default_value
       \<lparr>c_slots = [], c_free_positions = [], c_key_to_position = FlatIndexMap_default h,
        c_next_unused = 0, c_size = 0\<rparr>
       reserve_hint"

definition AllocatePosition :: "('k, 'v) FdKVCache \<Rightarrow> 32 word \<times> ('k, 'v) FdKVCache" where
  "AllocatePosition c =
     (if c_free_positions c \<noteq> [] then
        (last (c_free_positions c), c\<lparr>c_free_positions := butlast (c_free_positions c)\<rparr>)
      else if unat (c_next_unused c) \<ge> length (c_slots c) then (kInvalidPosition, c)
      else (c_next_unused c, c\<lparr>c_next_unused := c_next_unused c + 1\<rparr>))"

definition NextGeneration :: "32 word \<Rightarrow> 32 word" where
  "NextGeneration g = (if g \<ge> kMaxGeneration then 1 else g + 1)"

definition BuildHandle :: "('k, 'v) FdKVCache \<Rightarrow> 32 word \<Rightarrow> raw_type" where
  "BuildHandle c pos =
     (let slot = c_slots c ! unat pos in Make (s_type slot) (s_generation slot) pos)"

definition ValidateHandle :: "('k, 'v) FdKVCache \<Rightarrow> raw_type \<Rightarrow> 32 word" where
  "ValidateHandle c handle =
     (if IsNull handle then kInvalidPosition
      else let pos = Position handle in
        if unat pos \<ge> length (c_slots c) then kInvalidPosition
        else let slot = c_slots c ! unat pos in
          if s_occupied slot = 0 then kInvalidPosition
          else if s_type slot \<noteq> Type handle then kInvalidPosition
          else if s_generation slot \<noteq> Generation handle then kInvalidPosition
          else pos)"

definition Insert :: "('k, 'v) FdKVCache \<Rightarrow> 8 word \<Rightarrow> 'k \<Rightarrow> 'v \<Rightarrow> raw_type \<times> ('k, 'v) FdKVCache" where
  "Insert c type k v =
     (case Find (c_key_to_position c) k of
        Some pos \<Rightarrow> (BuildHandle c pos, c)
      | None \<Rightarrow>
         (let (pos, c) = AllocatePosition c in
          if pos = kInvalidPosition then (kNull, c)
          else
            let slot = (c_slots c ! unat pos)\<lparr>s_key := k, s_value := v, s_type := type, s_occupied := 1\<rparr>;
                c = c\<lparr>c_slots := (c_slots c)[unat pos := slot]\<rparr>;
                (ok, ix) = IndexInsert (c_key_to_position c) (s_key slot) pos;
                c = c\<lparr>c_key_to_position := ix\<rparr>
            in if \<not> ok then
                 (kNull, c\<lparr>c_slots := (c_slots c)[unat pos := slot\<lparr>s_occupied := 0\<rparr>],
                           c_free_positions := c_free_positions c @ [pos]\<rparr>)
               else
                 (let c = c\<lparr>c_size := c_size c + 1\<rparr> in (BuildHandle c pos, c))))"

definition InsertOrAssign :: "('k, 'v) FdKVCache \<Rightarrow> 8 word \<Rightarrow> 'k \<Rightarrow> 'v \<Rightarrow> raw_type \<times> ('k, 'v) FdKVCache" where
  "InsertOrAssign c type k v =
     (case Find (c_key_to_position c) k of
        Some pos \<Rightarrow>
          (let slot = (c_slots c ! unat pos)\<lparr>s_value := v, s_type := type\<rparr>;
               c = c\<lparr>c_slots := (c_slots c)[unat pos := slot]\<rparr>
           in (BuildHandle c pos, c))
      | None \<Rightarrow> Insert c type k v)"

definition Get :: "('k, 'v) FdKVCache \<Rightarrow> raw_type \<Rightarrow> 'v option" where
  "Get c handle =
     (let pos = ValidateHandle c handle in
      if pos = kInvalidPosition then None
      else Some (s_value (c_slots c ! unat pos)))"

definition Erase :: "('k, 'v) FdKVCache \<Rightarrow> raw_type \<Rightarrow> bool \<times> ('k, 'v) FdKVCache" where
  "Erase c handle =
     (let pos = ValidateHandle c handle in
      if pos = kInvalidPosition then (False, c)
      else
        let slot = c_slots c ! unat pos;
            (ok, ix) = IndexErase (c_key_to_position c) (s_key slot);
            c = c\<lparr>c_key_to_position := ix\<rparr>
        in if \<not> ok then (False, c)
           else
             (True, c\<lparr>c_slots := (c_slots c)[unat pos :=
                          slot\<lparr>s_occupied := 0, s_type := 0,
                               s_generation := NextGeneration (s_generation slot)\<rparr>],
                      c_free_positions := c_free_positions c @ [pos],
                      c_size := c_size c - 1\<rparr>))"

definition FindHandle :: "('k, 'v) FdKVCache \<Rightarrow> 'k \<Rightarrow> raw_type" where
  "FindHandle c k =
     (case Find (c_key_to_position c) k of
        None \<Rightarrow> kNull
      | Some pos \<Rightarrow> BuildHandle c pos)"

definition cache_size :: "('k, 'v) FdKVCache \<Rightarrow> size_t" where
  "cache_size c = c_size c"

definition cache_empty :: "('k, 'v) FdKVCache \<Rightarrow> bool" where
  "cache_empty c = (c_size c = 0)"

section \<open>The sharded cache (class \<^verbatim>\<open>ShardedFdKVCache\<close>)\<close>

text \<open>
  The model is sequential: every public operation of the source takes the lock of the one
  shard it touches for its whole body, so an operation is one atomic step on the state.
  The locks themselves, the relaxed atomic size counter's ordering and
  \<^verbatim>\<open>DefaultShardCount\<close> (which reads the hardware) are not modelled. A reader
  callback is modelled by the value it is handed, a writer callback by a function on the
  stored value.
\<close>

definition kShardBits :: nat where "kShardBits = 8"

definition kLocalBits :: nat where "kLocalBits = kPositionBits - kShardBits"

definition kMaxShards :: "32 word" where "kMaxShards = push_bit kShardBits 1"

definition kLocalMask :: "32 word" where "kLocalMask = push_bit kLocalBits 1 - 1"



definition NormalizeShardCount :: "size_t \<Rightarrow> size_t" where
  "NormalizeShardCount shard_count =
     (if shard_count = 0 then 1
      else if shard_count > ucast kMaxShards then ucast kMaxShards
      else shard_count)"

definition ComputePerShardCapacity :: "size_t \<Rightarrow> size_t \<Rightarrow> size_t" where
  "ComputePerShardCapacity shard_count reserve_hint =
     (let total = (if reserve_hint = 0 then push_bit 15 1 else reserve_hint);
          per_shard = (total + shard_count - 1) div shard_count;
          per_shard = (if per_shard = 0 then 1 else per_shard);
          hard_limit = ucast kLocalMask + 1
      in if per_shard > hard_limit then hard_limit else per_shard)"



















definition smear_inv :: "nat \<Rightarrow> nat \<Rightarrow> size_t \<Rightarrow> bool" where
  "smear_inv L s x \<longleftrightarrow> (\<forall>i. L \<le> i \<longrightarrow> \<not> bit x i) \<and> (\<forall>i. i < L \<and> L \<le> i + s \<longrightarrow> bit x i)"

definition pr :: "'k FlatIndexMap \<Rightarrow> 'k \<Rightarrow> nat \<Rightarrow> nat" where
  "pr m k i = (unat (ix_hasher m k) + i) mod length (ix_table m)"

definition shape :: "'k FlatIndexMap \<Rightarrow> bool" where
  "shape m \<longleftrightarrow> (\<exists>b. b \<le> 63 \<and> length (ix_table m) = 2 ^ b \<and> ix_mask m = mask b)"

definition occ_at :: "'k FlatIndexMap \<Rightarrow> nat \<Rightarrow> 'k \<Rightarrow> bool" where
  "occ_at m j k \<longleftrightarrow>
     j < length (ix_table m) \<and> e_state (ix_table m ! j) = kOccupied \<and> e_key (ix_table m ! j) = k"

definition occ_set :: "'k FlatIndexMap \<Rightarrow> nat set" where
  "occ_set m = {j. j < length (ix_table m) \<and> e_state (ix_table m ! j) = kOccupied}"

definition index_inv :: "'k FlatIndexMap \<Rightarrow> bool" where
  "index_inv m \<longleftrightarrow>
     shape m
     \<and> unat (ix_size m) = card (occ_set m)
     \<and> ix_size m \<le> ix_max_entries m
     \<and> unat (ix_max_entries m) < length (ix_table m)
     \<and> (\<forall>j k. occ_at m j k \<longrightarrow>
           (\<exists>d < length (ix_table m). pr m k d = j
              \<and> (\<forall>i < d. e_state (ix_table m ! pr m k i) \<noteq> kEmpty)))
     \<and> (\<forall>j j' k. occ_at m j k \<and> occ_at m j' k \<longrightarrow> j = j')"

definition stop_at :: "'k FlatIndexMap \<Rightarrow> 'k \<Rightarrow> nat \<Rightarrow> bool" where
  "stop_at m k j \<longleftrightarrow>
     e_state (ix_table m ! j) = kEmpty
     \<or> (e_state (ix_table m ! j) = kOccupied \<and> e_key (ix_table m ! j) = k)"

definition cache_inv :: "('k, 'v) FdKVCache \<Rightarrow> bool" where
  "cache_inv c \<longleftrightarrow>
     0 < length (c_slots c) \<and> length (c_slots c) < 2 ^ 32
     \<and> index_inv (c_key_to_position c)
     \<and> unat (ix_max_entries (c_key_to_position c)) = length (c_slots c)
     \<and> ix_size (c_key_to_position c) = c_size c
     \<and> unat (c_next_unused c) \<le> length (c_slots c)
     \<and> distinct (c_free_positions c)
     \<and> (\<forall>p. p \<in> set (c_free_positions c) \<longrightarrow> unat p < unat (c_next_unused c))
     \<and> (\<forall>i < length (c_slots c).
           s_occupied (c_slots c ! i) \<noteq> 0
             \<longleftrightarrow> (i < unat (c_next_unused c) \<and> i \<notin> unat ` set (c_free_positions c)))
     \<and> unat (c_size c) + length (c_free_positions c) = unat (c_next_unused c)
     \<and> (\<forall>i < length (c_slots c).
           1 \<le> s_generation (c_slots c ! i) \<and> s_generation (c_slots c ! i) \<le> kMaxGeneration)
     \<and> (\<forall>k p. Find (c_key_to_position c) k = Some p
           \<longleftrightarrow> (unat p < length (c_slots c) \<and> s_occupied (c_slots c ! unat p) \<noteq> 0
                \<and> s_key (c_slots c ! unat p) = k))"

definition valid_handle :: "('k, 'v) FdKVCache \<Rightarrow> raw_type \<Rightarrow> bool" where
  "valid_handle c h \<longleftrightarrow>
     h \<noteq> kNull \<and> unat (Position h) < length (c_slots c)
     \<and> s_occupied (c_slots c ! unat (Position h)) \<noteq> 0
     \<and> s_type (c_slots c ! unat (Position h)) = Type h
     \<and> s_generation (c_slots c ! unat (Position h)) = Generation h"

inductive reachable :: "('k, 'v) FdKVCache \<Rightarrow> bool" where
  r_new: "unat n < 2 ^ 32 \<Longrightarrow> reachable (FdKVCache_new h default_key default_value n)"
| r_Reserve: "reachable c \<Longrightarrow> unat n < 2 ^ 32 \<Longrightarrow> reachable (Reserve default_key default_value c n)"
| r_Insert: "reachable c \<Longrightarrow> reachable (snd (Insert c ty k v))"
| r_InsertOrAssign: "reachable c \<Longrightarrow> reachable (snd (InsertOrAssign c ty k v))"
| r_Erase: "reachable c \<Longrightarrow> reachable (snd (Erase c h))"

inductive index_reachable :: "size_t \<Rightarrow> 'k FlatIndexMap \<Rightarrow> bool" for max_entries where
  ir_Init: "index_reachable max_entries (Init default_key (FlatIndexMap_default h) max_entries)"
| ir_Insert: "index_reachable max_entries m \<Longrightarrow> index_reachable max_entries (snd (IndexInsert m k v))"
| ir_Erase: "index_reachable max_entries m \<Longrightarrow> index_reachable max_entries (snd (IndexErase m k))"

definition c1_index :: "64 word FlatIndexMap" where
  "c1_index = snd (IndexErase (snd (IndexInsert (Init 0 (FlatIndexMap_default (\<lambda>k. k)) 1) 5 7)) 5)"

definition ex_new :: "size_t \<Rightarrow> (64 word, 64 word) FdKVCache" where
  "ex_new n = FdKVCache_new (\<lambda>k. k) 0 0 n"

definition ex_one :: "(64 word, 64 word) FdKVCache" where
  "ex_one = snd (Insert (ex_new 4) 1 10 100)"

definition ex_full :: "(64 word, 64 word) FdKVCache" where
  "ex_full = snd (Insert (ex_new 1) 1 10 100)"

section \<open>Generations under sequences of operations\<close>







section \<open>Generations in the sharded cache\<close>
















section \<open>The single-owner cache at capacity \<open>2^32\<close>\<close>

text \<open>
  \<^verbatim>\<open>Reserve\<close> takes a \<^verbatim>\<open>std::size_t\<close> and accepts any capacity, but positions are 32-bit and
  \<^verbatim>\<open>0xffffffff\<close> is the invalid-position sentinel. The states below are those of a cache
  constructed with capacity \<open>2^32\<close> (identity hasher, 64-bit keys and values) after keys
  \<open>0, 1, \<dots>\<close> have been inserted in turn.
\<close>

definition big_new :: "(64 word, 64 word) FdKVCache" where
  "big_new = ex_new (2 ^ 32)"

fun fill :: "(64 word, 64 word) FdKVCache \<Rightarrow> nat \<Rightarrow> (64 word, 64 word) FdKVCache" where
  "fill c 0 = c"
| "fill c (Suc n) = snd (Insert (fill c n) 1 (of_nat n) 0)"

definition big_full :: "(64 word, 64 word) FdKVCache" where
  "big_full = fill big_new (2 ^ 32 - 1)"

definition big_wrapped :: "(64 word, 64 word) FdKVCache" where
  "big_wrapped = snd (Insert big_full 1 (2 ^ 32 - 1) 0)"

definition big_aliased :: "(64 word, 64 word) FdKVCache" where
  "big_aliased = snd (Insert big_wrapped 1 (2 ^ 32 - 1) 7)"

definition occupied_count :: "('k, 'v) FdKVCache \<Rightarrow> nat" where
  "occupied_count c = length (filter (\<lambda>s. s_occupied s \<noteq> 0) (c_slots c))"

definition full_slot :: "nat \<Rightarrow> (64 word, 64 word) Slot" where
  "full_slot i = \<lparr>s_key = of_nat i, s_value = 0, s_generation = 1, s_type = 1,
                  s_occupied = 1, s_reserved = 0\<rparr>"

definition big_inv :: "nat \<Rightarrow> (64 word, 64 word) FdKVCache \<Rightarrow> bool" where
  "big_inv j c \<longleftrightarrow>
     length (c_slots c) = 2 ^ 32 \<and> c_free_positions c = []
     \<and> c_next_unused c = of_nat j \<and> c_size c = of_nat j
     \<and> index_inv (c_key_to_position c)
     \<and> ix_max_entries (c_key_to_position c) = 2 ^ 32
     \<and> ix_size (c_key_to_position c) = of_nat j
     \<and> (\<forall>k. Find (c_key_to_position c) k = (if unat k < j then Some (of_nat (unat k)) else None))
     \<and> (\<forall>i < 2 ^ 32. c_slots c ! i = (if i < j then full_slot i else Slot_default 0 0))"

definition alias_inv :: "(64 word, 64 word) FdKVCache \<Rightarrow> bool" where
  "alias_inv c \<longleftrightarrow>
     length (c_slots c) = 2 ^ 32 \<and> c_free_positions c = []
     \<and> c_next_unused c = 1 \<and> c_size c = 2 ^ 32
     \<and> index_inv (c_key_to_position c)
     \<and> ix_max_entries (c_key_to_position c) = 2 ^ 32
     \<and> ix_size (c_key_to_position c) = 2 ^ 32
     \<and> (\<forall>k. Find (c_key_to_position c) k =
              (if k = 2 ^ 32 - 1 then Some 0
               else if unat k < 2 ^ 32 - 1 then Some (of_nat (unat k)) else None))
     \<and> c_slots c ! 0 = \<lparr>s_key = 2 ^ 32 - 1, s_value = 7, s_generation = 1, s_type = 1,
                          s_occupied = 1, s_reserved = 0\<rparr>
     \<and> (\<forall>i. 0 < i \<and> i < 2 ^ 32 - 1 \<longrightarrow> c_slots c ! i = full_slot i)
     \<and> c_slots c ! (2 ^ 32 - 1) = Slot_default 0 0"

section \<open>Properties of the handle codec\<close>

lemma codec_masks:
  "kPositionMask = mask 32"
  "kGenerationMask = push_bit 32 (mask 24)"
  "kTypeMask = push_bit 56 (mask 8)"
  by (simp_all add: kPositionMask_def kGenerationMask_def kTypeMask_def kPositionBits_def
      kGenerationBits_def kTypeBits_def mask_eq_exp_minus_1)

lemma Type_Make: "Type (Make t g p) = t"
  unfolding Type_def Make_def Let_def codec_masks kPositionBits_def kGenerationBits_def
  by (rule bit_word_eqI) (auto simp add: bit_simps)

lemma Position_Make: "Position (Make t g p) = p"
  unfolding Position_def Make_def Let_def codec_masks kPositionBits_def kGenerationBits_def
  by (rule bit_word_eqI) (auto simp add: bit_simps)

lemma Generation_Make: "Generation (Make t g p) = g AND mask 24"
  unfolding Generation_def Make_def Let_def codec_masks kPositionBits_def kGenerationBits_def
  by (rule bit_word_eqI) (auto simp add: bit_simps)

lemma unat_and_mask24: "unat (g AND mask 24) = unat g mod 2 ^ 24" for g :: "32 word"
  by (simp add: unsigned_take_bit_eq take_bit_eq_mod unat_mod_distrib flip: take_bit_eq_mask)

lemma Make_null_iff:
  "Make t g p = kNull \<longleftrightarrow> t = 0 \<and> unat g mod 2 ^ 24 = 0 \<and> p = 0"
proof
  assume h: "Make t g p = kNull"
  have "Type (Make t g p) = t" "Position (Make t g p) = p"
    "Generation (Make t g p) = g AND mask 24"
    by (rule Type_Make Position_Make Generation_Make)+
  moreover have "Type kNull = 0" "Position kNull = 0" "Generation kNull = 0"
    by (simp_all add: Type_def Position_def Generation_def kNull_def)
  ultimately have "t = 0" "p = 0" "g AND mask 24 = 0"
    using h by simp_all
  then show "t = 0 \<and> unat g mod 2 ^ 24 = 0 \<and> p = 0"
    using unat_and_mask24 [of g] by simp
next
  assume h: "t = 0 \<and> unat g mod 2 ^ 24 = 0 \<and> p = 0"
  with unat_and_mask24 [of g] have g0: "g AND mask 24 = 0"
    by (simp add: unat_eq_0)
  have "Make 0 g 0 = push_bit 32 (ucast (g AND mask 24))"
    unfolding Make_def Let_def codec_masks kPositionBits_def kGenerationBits_def
    by (rule bit_word_eqI) (auto simp add: bit_simps)
  with g0 h show "Make t g p = kNull"
    by (simp add: kNull_def)
qed

text \<open>
  Claim C10. The codec is total: for every type tag \<open>t\<close>, every 32-bit generation \<open>g\<close>
  and every position \<open>p\<close>, decoding \<open>Make t g p\<close> gives back \<open>t\<close>, the generation
  reduced modulo \<open>2^24\<close> (an out-of-range generation is truncated by the mask, not
  rejected) and \<open>p\<close>; and \<open>Make t g p\<close> is the null handle exactly when \<open>t = 0\<close>,
  \<open>g mod 2^24 = 0\<close> and \<open>p = 0\<close>.
\<close>

theorem codec_roundtrip_total:
  "Type (Make t g p) = t
   \<and> unat (Generation (Make t g p)) = unat g mod 2 ^ 24
   \<and> Position (Make t g p) = p
   \<and> (IsNull (Make t g p) = (t = 0 \<and> unat g mod 2 ^ 24 = 0 \<and> p = 0))"
  by (simp add: Type_Make Position_Make Generation_Make unat_and_mask24 IsNull_def
      Make_null_iff)

section \<open>Sharded-cache construction parameters\<close>

lemma shard_consts:
  "ucast kMaxShards = (256 :: size_t)" "ucast kLocalMask + 1 = (2 ^ 24 :: size_t)"
  by (simp_all add: kMaxShards_def kLocalMask_def kShardBits_def kLocalBits_def kPositionBits_def)

lemma NormalizeShardCount_clamp:
  "unat (NormalizeShardCount shard_count) = max 1 (min (unat shard_count) 256)"
  unfolding NormalizeShardCount_def shard_consts
  by (auto simp add: word_less_nat_alt unat_eq_0 max_def min_def dest: unat_gt_0[THEN iffD2])

lemma ComputePerShardCapacity_no_overflow:
  assumes sc: "1 \<le> unat sc" "unat sc \<le> 256"
    and tot: "(if h = 0 then 32768 else unat h) + unat sc - 1 < 2 ^ 64"
  shows "unat (ComputePerShardCapacity sc h) =
           max 1 (min (((if h = 0 then 32768 else unat h) + unat sc - 1) div unat sc) (2 ^ 24))"
proof -
  define total :: size_t where "total = (if h = 0 then push_bit 15 1 else h)"
  have ut: "unat total = (if h = 0 then 32768 else unat h)" by (simp add: total_def)
  have sc0: "sc \<noteq> 0" using sc by (auto simp: unat_eq_0)
  have s1: "unat (sc - 1) = unat sc - 1" using sc0 by (rule unat_minus_one)
  have "unat total + unat (sc - 1) < 2 ^ LENGTH(64)" using sc tot ut s1 by simp
  then have "unat (total + (sc - 1)) = unat total + unat (sc - 1)"
    by (simp only: unat_add_lem)
  then have "unat (total + sc - 1) = unat total + unat sc - 1"
    using s1 sc by (simp add: add_diff_eq)
  then have d: "unat ((total + sc - 1) div sc) = (unat total + unat sc - 1) div unat sc"
    by (simp add: unat_div)
  define q where "q = (total + sc - 1) div sc"
  have q0: "q = 0 \<longleftrightarrow> unat q = 0" by (simp add: unat_eq_0)
  have r: "ComputePerShardCapacity sc h =
      (if (if q = 0 then 1 else q) > 2 ^ 24 then 2 ^ 24 else (if q = 0 then 1 else q))"
    unfolding ComputePerShardCapacity_def Let_def shard_consts total_def[symmetric] q_def ..
  show ?thesis
    unfolding r q0 using d[folded q_def] ut
    by (simp add: word_less_nat_alt max_def min_def)
qed

text \<open>
  Claim C9. The effective shard count is the requested count clamped to \<open>[1, 256]\<close>, and
  the per-shard capacity is \<open>min (ceil (total / shard_count)) 2^24\<close>, at least 1, where the
  total is the reserve hint, or 32768 when the hint is 0. The source computes the ceiling
  as \<^verbatim>\<open>(total + shard_count - 1) / shard_count\<close> in \<^verbatim>\<open>std::size_t\<close>: when the sum passes
  \<open>2^64\<close> it wraps around. With 2 shards and a reserve hint of \<open>2^64 - 1\<close> the sum wraps
  to 0 and the capacity is 1 per shard, where the claim gives \<open>2^24\<close>; below the
  wrap-around the claim holds (\<open>NormalizeShardCount_clamp\<close>,
  \<open>ComputePerShardCapacity_no_overflow\<close>).
\<close>

theorem per_shard_capacity_overflow:
  "NormalizeShardCount 2 = 2
   \<and> ComputePerShardCapacity (NormalizeShardCount 2) (2 ^ 64 - 1) = 1
   \<and> min (((2 ^ 64 - 1 :: nat) + 2 - 1) div 2) (2 ^ 24) = 2 ^ 24"
  by (simp add: ComputePerShardCapacity_def NormalizeShardCount_def shard_consts)

lemma smear_step: "smear_inv L s x \<Longrightarrow> smear_inv L (2 * s) (x OR drop_bit s x)"
  unfolding smear_inv_def
proof (intro conjI allI impI)
  fix i assume h: "(\<forall>i. L \<le> i \<longrightarrow> \<not> bit x i) \<and> (\<forall>i. i < L \<and> L \<le> i + s \<longrightarrow> bit x i)" and "L \<le> i"
  then show "\<not> bit (x OR drop_bit s x) i"
    by (simp add: bit_or_iff bit_drop_bit_eq)
next
  fix i assume h: "(\<forall>i. L \<le> i \<longrightarrow> \<not> bit x i) \<and> (\<forall>i. i < L \<and> L \<le> i + s \<longrightarrow> bit x i)"
    and i: "i < L \<and> L \<le> i + 2 * s"
  show "bit (x OR drop_bit s x) i"
  proof (cases "L \<le> i + s")
    case True
    with h i show ?thesis by (simp add: bit_or_iff)
  next
    case False
    then have "s + i < L \<and> L \<le> (s + i) + s" using i by simp
    with h have "bit x (s + i)" by blast
    then show ?thesis by (simp add: bit_or_iff bit_drop_bit_eq)
  qed
qed

lemma smear_final:
  assumes "smear_inv L 64 x" "L \<le> 64"
  shows "x = mask L"
proof (rule bit_word_eqI)
  fix i assume "i < LENGTH(64)"
  with assms show "bit x i = bit (mask L :: size_t) i"
    unfolding smear_inv_def by (cases "i < L") (auto simp add: bit_mask_iff)
qed

lemma NextPowerOfTwo_pow2:
  assumes n: "1 < unat n" "unat n \<le> 2 ^ 63"
  shows "\<exists>b. b \<le> 63 \<and> NextPowerOfTwo n = 2 ^ b \<and> unat n \<le> 2 ^ b"
proof -
  define m where "m = n - 1"
  have n0: "n \<noteq> 0" using n by (auto simp: unat_eq_0)
  have um: "unat m = unat n - 1" unfolding m_def using n0 by (rule unat_minus_one)
  have m0: "m \<noteq> 0" using um n by (auto simp: unat_eq_0)
  have mlt: "unat m < 2 ^ 63" using um n by simp
  define S where "S = {i. bit m i}"
  have Sfin: "finite S" unfolding S_def by simp
  have Sne: "S \<noteq> {}" using m0 unfolding S_def by (auto simp: bit_eq_iff)
  define L where "L = Suc (Max S)"
  have top: "bit m (Max S)" using Max_in[OF Sfin Sne] by (simp add: S_def)
  have above: "\<not> bit m i" if "L \<le> i" for i
  proof
    assume "bit m i"
    then have "i \<in> S" by (simp add: S_def)
    then have "i \<le> Max S" using Sfin by simp
    with that show False by (simp add: L_def)
  qed
  have L63: "L \<le> 63"
  proof (rule ccontr)
    assume "\<not> L \<le> 63"
    then have "63 \<le> Max S" by (simp add: L_def)
    moreover have "Max S < 64" using top by (auto dest: bit_imp_le_length)
    ultimately have e: "Max S = 63" by simp
    have "\<not> bit (unat m) 63" using mlt by (simp add: bit_iff_odd)
    then have "\<not> bit m 63" by (simp add: bit_unsigned_iff)
    with top e show False by simp
  qed
  have q1: "smear_inv L 1 m"
    unfolding smear_inv_def using above top by (auto simp: L_def less_Suc_eq_le)
  have q64: "smear_inv L 64
      (let n = m; n = n OR drop_bit 1 n; n = n OR drop_bit 2 n; n = n OR drop_bit 4 n;
           n = n OR drop_bit 8 n; n = n OR drop_bit 16 n; n = n OR drop_bit 32 n in n)"
    unfolding Let_def
    using smear_step[OF smear_step[OF smear_step[OF smear_step[OF smear_step[OF smear_step[OF q1]]]]]]
    by simp
  have fin: "(let n = m; n = n OR drop_bit 1 n; n = n OR drop_bit 2 n; n = n OR drop_bit 4 n;
           n = n OR drop_bit 8 n; n = n OR drop_bit 16 n; n = n OR drop_bit 32 n in n) = mask L"
    using smear_final[OF q64] L63 by simp
  have np: "NextPowerOfTwo n = mask L + 1"
    using n fin unfolding NextPowerOfTwo_def m_def Let_def
    by (simp add: word_le_nat_alt not_le[symmetric])
  have "mask L + 1 = (2 ^ L :: size_t)" by (simp add: mask_eq_exp_minus_1)
  moreover have "unat m < 2 ^ L"
  proof -
    have "take_bit L m = m"
      by (rule bit_word_eqI) (use above in \<open>auto simp add: bit_take_bit_iff not_le[symmetric]\<close>)
    then have "unat m = take_bit L (unat m)" by (metis unsigned_take_bit_eq)
    then show ?thesis by (metis take_bit_nat_less_exp)
  qed
  ultimately show ?thesis using np L63 um n by (intro exI[of _ L]) auto
qed

lemma shape_pos: "shape m \<Longrightarrow> 0 < length (ix_table m)"
  by (auto simp: shape_def)

lemma shape_nonempty: "shape m \<Longrightarrow> ix_table m \<noteq> []"
  by (auto simp: shape_def)

lemma pr_lt: "shape m \<Longrightarrow> pr m k i < length (ix_table m)"
  using shape_pos[of m] by (simp add: pr_def)

lemma shape_len_le: "shape m \<Longrightarrow> length (ix_table m) \<le> 2 ^ 63"
proof -
  assume "shape m"
  then obtain b where b: "b \<le> 63" "length (ix_table m) = 2 ^ b"
    by (auto simp: shape_def)
  have "(2::nat) ^ b \<le> 2 ^ 63" using b(1) by (intro power_increasing) simp_all
  with b(2) show ?thesis by simp
qed

lemma unat_pr: "shape m \<Longrightarrow> unat (of_nat (pr m k i) :: size_t) = pr m k i"
proof -
  assume s: "shape m"
  have "pr m k i < 2 ^ 63" using pr_lt[OF s, of k i] shape_len_le[OF s] by simp
  then have "pr m k i < 2 ^ LENGTH(64)" by simp
  then show ?thesis by (simp add: unat_of_nat)
qed

lemma pr_Suc: "pr m k (Suc i) = (pr m k i + 1) mod length (ix_table m)"
  by (simp add: pr_def mod_Suc_eq)

lemma unat_and_shape:
  assumes "shape m"
  shows "unat (w AND ix_mask m) = unat w mod length (ix_table m)"
proof -
  from assms obtain b where b: "length (ix_table m) = 2 ^ b" "ix_mask m = mask b"
    by (auto simp: shape_def)
  have "unat (w AND mask b) = unat (take_bit b w)" by (simp only: take_bit_eq_mask)
  also have "\<dots> = take_bit b (unat w)" by (rule unsigned_take_bit_eq)
  also have "\<dots> = unat w mod 2 ^ b" by (rule take_bit_eq_mod)
  finally show ?thesis by (simp add: b)
qed

lemma ProbeStart_eq: "shape m \<Longrightarrow> ProbeStart m k = of_nat (pr m k 0)"
proof -
  assume s: "shape m"
  have "unat (ProbeStart m k) = pr m k 0"
    by (simp add: ProbeStart_def unat_and_shape[OF s] pr_def)
  then show ?thesis by (metis of_nat_unat ucast_id)
qed

lemma NextIndex_eq: "shape m \<Longrightarrow> NextIndex m (of_nat (pr m k i)) = of_nat (pr m k (Suc i))"
proof -
  assume s: "shape m"
  have "pr m k i + 1 < 2 ^ LENGTH(64)"
    using pr_lt[OF s, of k i] shape_len_le[OF s] by simp
  then have "unat (of_nat (pr m k i) + 1 :: size_t) = pr m k i + 1"
    using unat_pr[OF s, of k i] by (metis unat_1 unat_add_lem)
  then have "unat (NextIndex m (of_nat (pr m k i))) = pr m k (Suc i)"
    by (simp add: NextIndex_def unat_and_shape[OF s] pr_Suc)
  then show ?thesis by (metis of_nat_unat ucast_id)
qed

lemma pr_inj_le:
  assumes "0 < L" "i < L" "i' < L" "i \<le> i'" "((h::nat) + i) mod L = (h + i') mod L"
  shows "i = i'"
proof -
  have "L dvd (h + i') - (h + i)"
    using assms(4,5) by (subst mod_eq_dvd_iff_nat[symmetric]) simp_all
  then have "L dvd i' - i" by simp
  moreover have "i' - i < L" using assms by simp
  ultimately have "i' - i = 0" by (meson dvd_imp_le not_less zero_less_iff_neq_zero)
  with assms(4) show ?thesis by simp
qed

lemma pr_inj:
  assumes "shape m" "i < length (ix_table m)" "i' < length (ix_table m)" "pr m k i = pr m k i'"
  shows "i = i'"
proof (cases "i \<le> i'")
  case True
  then show ?thesis
    using pr_inj_le[OF shape_pos[OF assms(1)] assms(2,3)] assms(4) by (simp add: pr_def)
next
  case False
  then have "i' \<le> i" by simp
  then have "i' = i"
    using pr_inj_le[OF shape_pos[OF assms(1)] assms(3,2)] assms(4)[symmetric] by (simp add: pr_def)
  then show ?thesis by simp
qed

lemma kNpos_not_pr: "shape m \<Longrightarrow> (of_nat (pr m k i) :: size_t) \<noteq> kNpos"
proof
  assume s: "shape m" and e: "(of_nat (pr m k i) :: size_t) = kNpos"
  have "unat (kNpos) = 2 ^ 64 - 1" by (simp add: kNpos_def unsigned_minus_1_eq_mask mask_eq_exp_minus_1)
  moreover have "pr m k i < 2 ^ 63" using pr_lt[OF s, of k i] shape_len_le[OF s] by simp
  ultimately show False using unat_pr[OF s, of k i] e by simp
qed

lemma Find_loop_absent:
  assumes "shape m" "\<forall>j. \<not> occ_at m j k"
  shows "Find_loop m k (of_nat (pr m k i)) n = None"
proof (induction n arbitrary: i)
  case 0
  show ?case by simp
next
  case (Suc n)
  have "\<not> occ_at m (pr m k i) k" using assms(2) by blast
  then have "\<not> (e_state (ix_table m ! pr m k i) = kOccupied \<and> e_key (ix_table m ! pr m k i) = k)"
    using pr_lt[OF assms(1), of k i] by (simp add: occ_at_def)
  then show ?case
    using Suc.IH[of "Suc i"]
    by (simp add: unat_pr[OF assms(1)] NextIndex_eq[OF assms(1)] Let_def)
qed

lemma Find_loop_skip:
  assumes "shape m"
  shows "(\<forall>i' < d. \<not> stop_at m k (pr m k (i + i'))) \<Longrightarrow> d \<le> n \<Longrightarrow>
         Find_loop m k (of_nat (pr m k i)) n = Find_loop m k (of_nat (pr m k (i + d))) (n - d)"
proof (induction d arbitrary: i n)
  case 0
  show ?case by simp
next
  case (Suc d)
  from Suc.prems(2) obtain n' where n: "n = Suc n'" "d \<le> n'" by (cases n) auto
  have ns: "\<not> stop_at m k (pr m k i)" using Suc.prems(1)[rule_format, of 0] by simp
  have rest: "\<forall>i' < d. \<not> stop_at m k (pr m k (Suc i + i'))"
  proof (intro allI impI)
    fix i' assume "i' < d"
    then have "Suc i' < Suc d" by simp
    from Suc.prems(1)[rule_format, OF this] show "\<not> stop_at m k (pr m k (Suc i + i'))" by simp
  qed
  have "Find_loop m k (of_nat (pr m k i)) n = Find_loop m k (of_nat (pr m k (Suc i))) n'"
    using ns unfolding n(1)
    by (auto simp add: unat_pr[OF assms] NextIndex_eq[OF assms] Let_def stop_at_def)
  also have "\<dots> = Find_loop m k (of_nat (pr m k (Suc i + d))) (n' - d)"
    by (rule Suc.IH[OF rest n(2)])
  finally show ?case by (simp add: n(1))
qed

lemma Erase_loop_absent:
  assumes "shape m" "\<forall>j. \<not> occ_at m j k"
  shows "Erase_loop m k (of_nat (pr m k i)) n = (False, m)"
proof (induction n arbitrary: i)
  case 0
  show ?case by simp
next
  case (Suc n)
  have "\<not> occ_at m (pr m k i) k" using assms(2) by blast
  then have "\<not> (e_state (ix_table m ! pr m k i) = kOccupied \<and> e_key (ix_table m ! pr m k i) = k)"
    using pr_lt[OF assms(1), of k i] by (simp add: occ_at_def)
  then show ?case
    using Suc.IH[of "Suc i"]
    by (simp add: unat_pr[OF assms(1)] NextIndex_eq[OF assms(1)] Let_def)
qed

lemma Erase_loop_skip:
  assumes "shape m"
  shows "(\<forall>i' < d. \<not> stop_at m k (pr m k (i + i'))) \<Longrightarrow> d \<le> n \<Longrightarrow>
         Erase_loop m k (of_nat (pr m k i)) n = Erase_loop m k (of_nat (pr m k (i + d))) (n - d)"
proof (induction d arbitrary: i n)
  case 0
  show ?case by simp
next
  case (Suc d)
  from Suc.prems(2) obtain n' where n: "n = Suc n'" "d \<le> n'" by (cases n) auto
  have ns: "\<not> stop_at m k (pr m k i)" using Suc.prems(1)[rule_format, of 0] by simp
  have rest: "\<forall>i' < d. \<not> stop_at m k (pr m k (Suc i + i'))"
  proof (intro allI impI)
    fix i' assume "i' < d"
    then have "Suc i' < Suc d" by simp
    from Suc.prems(1)[rule_format, OF this] show "\<not> stop_at m k (pr m k (Suc i + i'))" by simp
  qed
  have "Erase_loop m k (of_nat (pr m k i)) n = Erase_loop m k (of_nat (pr m k (Suc i))) n'"
    using ns unfolding n(1)
    by (auto simp add: unat_pr[OF assms] NextIndex_eq[OF assms] Let_def stop_at_def)
  also have "\<dots> = Erase_loop m k (of_nat (pr m k (Suc i + d))) (n' - d)"
    by (rule Suc.IH[OF rest n(2)])
  finally show ?case by (simp add: n(1))
qed

lemma Insert_loop_skip:
  assumes "shape m"
  shows "(\<forall>i' < d. \<not> stop_at m k (pr m k (i + i'))) \<Longrightarrow> d \<le> n \<Longrightarrow>
         \<exists>fd'. Insert_loop m k v (of_nat (pr m k i)) fd n
                = Insert_loop m k v (of_nat (pr m k (i + d))) fd' (n - d)"
proof (induction d arbitrary: i n fd)
  case 0
  show ?case by auto
next
  case (Suc d)
  from Suc.prems(2) obtain n' where n: "n = Suc n'" "d \<le> n'" by (cases n) auto
  have ns: "\<not> stop_at m k (pr m k i)" using Suc.prems(1)[rule_format, of 0] by simp
  have rest: "\<forall>i' < d. \<not> stop_at m k (pr m k (Suc i + i'))"
  proof (intro allI impI)
    fix i' assume "i' < d"
    then have "Suc i' < Suc d" by simp
    from Suc.prems(1)[rule_format, OF this] show "\<not> stop_at m k (pr m k (Suc i + i'))" by simp
  qed
  have "\<exists>fd1. Insert_loop m k v (of_nat (pr m k i)) fd n
             = Insert_loop m k v (of_nat (pr m k (Suc i))) fd1 n'"
    using ns unfolding n(1)
    by (cases "e_state (ix_table m ! pr m k i)")
       (auto simp add: unat_pr[OF assms] NextIndex_eq[OF assms] Let_def stop_at_def)
  then obtain fd1 where 1: "Insert_loop m k v (of_nat (pr m k i)) fd n
             = Insert_loop m k v (of_nat (pr m k (Suc i))) fd1 n'" ..
  from Suc.IH[OF rest n(2), of fd1] obtain fd' where
    2: "Insert_loop m k v (of_nat (pr m k (Suc i))) fd1 n'
        = Insert_loop m k v (of_nat (pr m k (Suc i + d))) fd' (n' - d)" ..
  show ?case using 1 2 by (auto simp add: n(1))
qed

lemma chain_no_stop:
  assumes inv: "index_inv m" and occ: "occ_at m j k"
    and d: "d < length (ix_table m)" "pr m k d = j"
           "\<forall>i < d. e_state (ix_table m ! pr m k i) \<noteq> kEmpty"
  shows "\<forall>i < d. \<not> stop_at m k (pr m k i)"
proof (intro allI impI notI)
  fix i assume i: "i < d" and st: "stop_at m k (pr m k i)"
  have s: "shape m" using inv by (simp add: index_inv_def)
  from st d(3) i have "e_state (ix_table m ! pr m k i) = kOccupied \<and> e_key (ix_table m ! pr m k i) = k"
    by (auto simp: stop_at_def)
  then have "occ_at m (pr m k i) k" using pr_lt[OF s] by (simp add: occ_at_def)
  with occ inv have "pr m k i = j" unfolding index_inv_def by blast
  with d(2) have "pr m k i = pr m k d" by simp
  then have "i = d" using pr_inj[OF s _ d(1)] i d(1) by simp
  with i show False by simp
qed

lemma chain_witness:
  assumes inv: "index_inv m" and occ: "occ_at m j k"
  obtains d where "d < length (ix_table m)" "pr m k d = j" "\<forall>i < d. \<not> stop_at m k (pr m k i)"
proof -
  from inv occ obtain d where d: "d < length (ix_table m)" "pr m k d = j"
           "\<forall>i < d. e_state (ix_table m ! pr m k i) \<noteq> kEmpty"
    unfolding index_inv_def by blast
  from chain_no_stop[OF inv occ d] d(1,2) that show ?thesis by blast
qed

lemma Find_present:
  assumes inv: "index_inv m" and occ: "occ_at m j k"
  shows "Find m k = Some (e_value (ix_table m ! j))"
proof -
  have s: "shape m" using inv by (simp add: index_inv_def)
  from chain_witness[OF inv occ] obtain d where d: "d < length (ix_table m)" "pr m k d = j"
    "\<forall>i < d. \<not> stop_at m k (pr m k i)" by blast
  from d(1) obtain r where r: "length (ix_table m) - d = Suc r" by (cases "length (ix_table m) - d") auto
  have "Find m k = Find_loop m k (of_nat (pr m k 0)) (length (ix_table m))"
    by (simp add: Find_def shape_nonempty[OF s] ProbeStart_eq[OF s])
  also have "\<dots> = Find_loop m k (of_nat (pr m k (0 + d))) (length (ix_table m) - d)"
    using d by (intro Find_loop_skip[OF s]) simp_all
  also have "\<dots> = Some (e_value (ix_table m ! j))"
    using occ unat_pr[OF s, of k d] by (simp add: r d(2) occ_at_def Let_def)
  finally show ?thesis .
qed

lemma Find_absent:
  assumes "shape m" "\<forall>j. \<not> occ_at m j k"
  shows "Find m k = None"
  by (simp add: Find_def shape_nonempty[OF assms(1)] ProbeStart_eq[OF assms(1)]
      Find_loop_absent[OF assms])

lemma Find_iff:
  assumes "index_inv m"
  shows "Find m k = Some v \<longleftrightarrow> (\<exists>j. occ_at m j k \<and> e_value (ix_table m ! j) = v)"
proof (cases "\<exists>j. occ_at m j k")
  case True
  then obtain j where j: "occ_at m j k" ..
  have u: "j' = j" if "occ_at m j' k" for j'
    using assms j that unfolding index_inv_def by blast
  have f: "Find m k = Some (e_value (ix_table m ! j))" by (rule Find_present[OF assms j])
  show ?thesis
  proof
    assume "Find m k = Some v"
    with f j show "\<exists>j. occ_at m j k \<and> e_value (ix_table m ! j) = v" by auto
  next
    assume "\<exists>j. occ_at m j k \<and> e_value (ix_table m ! j) = v"
    then obtain j' where "occ_at m j' k" "e_value (ix_table m ! j') = v" by blast
    with u[of j'] f show "Find m k = Some v" by simp
  qed
next
  case False
  have s: "shape m" using assms by (simp add: index_inv_def)
  have "Find m k = None" using False by (intro Find_absent[OF s]) simp
  then show ?thesis using False by simp
qed

lemma Find_None_iff:
  assumes "index_inv m"
  shows "Find m k = None \<longleftrightarrow> (\<forall>j. \<not> occ_at m j k)"
proof
  assume n: "Find m k = None"
  show "\<forall>j. \<not> occ_at m j k"
  proof (intro allI notI)
    fix j assume "occ_at m j k"
    from Find_present[OF assms this] n show False by simp
  qed
next
  assume "\<forall>j. \<not> occ_at m j k"
  moreover have "shape m" using assms by (simp add: index_inv_def)
  ultimately show "Find m k = None" by (intro Find_absent)
qed

lemma IndexErase_at:
  assumes inv: "index_inv m" and occ: "occ_at m j k"
  shows "IndexErase m k =
           (True, m\<lparr>ix_table := (ix_table m)[j := (ix_table m ! j)\<lparr>e_state := kDeleted\<rparr>],
                    ix_size := ix_size m - 1,
                    ix_tombstones := ix_tombstones m + 1\<rparr>)"
proof -
  have s: "shape m" using inv by (simp add: index_inv_def)
  from chain_witness[OF inv occ] obtain d where d: "d < length (ix_table m)" "pr m k d = j"
    "\<forall>i < d. \<not> stop_at m k (pr m k i)" by blast
  from d(1) obtain r where r: "length (ix_table m) - d = Suc r"
    by (cases "length (ix_table m) - d") auto
  have "IndexErase m k = Erase_loop m k (of_nat (pr m k 0)) (length (ix_table m))"
    by (simp add: IndexErase_def shape_nonempty[OF s] ProbeStart_eq[OF s])
  also have "\<dots> = Erase_loop m k (of_nat (pr m k (0 + d))) (length (ix_table m) - d)"
    using d by (intro Erase_loop_skip[OF s]) simp_all
  also have "\<dots> = (True, m\<lparr>ix_table := (ix_table m)[j := (ix_table m ! j)\<lparr>e_state := kDeleted\<rparr>],
                    ix_size := ix_size m - 1,
                    ix_tombstones := ix_tombstones m + 1\<rparr>)"
    using occ unat_pr[OF s, of k d] by (simp add: r d(2) occ_at_def Let_def)
  finally show ?thesis .
qed

lemma IndexErase_miss:
  assumes "shape m" "\<forall>j. \<not> occ_at m j k"
  shows "IndexErase m k = (False, m)"
  by (simp add: IndexErase_def shape_nonempty[OF assms(1)] ProbeStart_eq[OF assms(1)]
      Erase_loop_absent[OF assms])

lemma IndexInsert_at:
  assumes inv: "index_inv m" and occ: "occ_at m j k"
  shows "IndexInsert m k v =
           (True, m\<lparr>ix_table := (ix_table m)[j := (ix_table m ! j)\<lparr>e_value := v\<rparr>]\<rparr>)"
proof -
  have s: "shape m" using inv by (simp add: index_inv_def)
  from chain_witness[OF inv occ] obtain d where d: "d < length (ix_table m)" "pr m k d = j"
    "\<forall>i < d. \<not> stop_at m k (pr m k i)" by blast
  from d(1) obtain r where r: "length (ix_table m) - d = Suc r"
    by (cases "length (ix_table m) - d") auto
  have "IndexInsert m k v = Insert_loop m k v (of_nat (pr m k 0)) kNpos (length (ix_table m))"
    by (simp add: IndexInsert_def shape_nonempty[OF s] ProbeStart_eq[OF s])
  moreover obtain fd' where "Insert_loop m k v (of_nat (pr m k 0)) kNpos (length (ix_table m))
      = Insert_loop m k v (of_nat (pr m k (0 + d))) fd' (length (ix_table m) - d)"
    using Insert_loop_skip[OF s, of d k 0 "length (ix_table m)" v kNpos] d by auto
  moreover have "Insert_loop m k v (of_nat (pr m k (0 + d))) fd' (length (ix_table m) - d)
      = (True, m\<lparr>ix_table := (ix_table m)[j := (ix_table m ! j)\<lparr>e_value := v\<rparr>]\<rparr>)"
    using occ unat_pr[OF s, of k d] by (simp add: r d(2) occ_at_def Let_def)
  ultimately show ?thesis by simp
qed

lemma all_occupied_card:
  assumes s: "shape m" and a: "\<forall>i < length (ix_table m). e_state (ix_table m ! pr m k i) = kOccupied"
  shows "length (ix_table m) \<le> card (occ_set m)"
proof -
  let ?L = "length (ix_table m)"
  have inj: "inj_on (pr m k) {..<?L}"
    by (rule inj_onI) (use pr_inj[OF s] in auto)
  have sub: "pr m k ` {..<?L} \<subseteq> occ_set m"
    using a pr_lt[OF s] by (auto simp: occ_set_def)
  have "finite (occ_set m)" by (simp add: occ_set_def)
  then have "card (pr m k ` {..<?L}) \<le> card (occ_set m)" using sub by (intro card_mono)
  then show ?thesis using inj by (simp add: card_image)
qed

lemma Insert_loop_absent:
  assumes s: "shape m" and ab: "\<forall>j. \<not> occ_at m j k"
    and c: "card (occ_set m) < length (ix_table m)"
  shows "i + n = length (ix_table m) \<Longrightarrow>
         (\<forall>i' < i. e_state (ix_table m ! pr m k i') \<noteq> kEmpty) \<Longrightarrow>
         (fd = kNpos \<and> (\<forall>i' < i. e_state (ix_table m ! pr m k i') = kOccupied))
           \<or> (\<exists>i' < i. fd = of_nat (pr m k i') \<and> e_state (ix_table m ! pr m k i') = kDeleted) \<Longrightarrow>
         \<exists>dt < length (ix_table m).
            e_state (ix_table m ! pr m k dt) \<noteq> kOccupied
            \<and> (\<forall>i' < dt. e_state (ix_table m ! pr m k i') \<noteq> kEmpty)
            \<and> Insert_loop m k v (of_nat (pr m k i)) fd n = InsertAt m (of_nat (pr m k dt)) k v"
proof (induction n arbitrary: i fd)
  case 0
  then have iL: "i = length (ix_table m)" by simp
  from 0(3) show ?case
  proof
    assume "fd = kNpos \<and> (\<forall>i' < i. e_state (ix_table m ! pr m k i') = kOccupied)"
    then have "length (ix_table m) \<le> card (occ_set m)"
      using all_occupied_card[OF s, of k] iL by simp
    with c show ?thesis by simp
  next
    assume "\<exists>i' < i. fd = of_nat (pr m k i') \<and> e_state (ix_table m ! pr m k i') = kDeleted"
    then obtain i' where i': "i' < i" "fd = of_nat (pr m k i')"
      "e_state (ix_table m ! pr m k i') = kDeleted" by blast
    have "fd \<noteq> kNpos" using kNpos_not_pr[OF s] i'(2) by simp
    then have "Insert_loop m k v (of_nat (pr m k i)) fd 0 = InsertAt m (of_nat (pr m k i')) k v"
      using i'(2) by simp
    moreover have "\<forall>i'' < i'. e_state (ix_table m ! pr m k i'') \<noteq> kEmpty"
      using 0(2) i'(1) by simp
    ultimately show ?thesis using i' iL by (intro exI[of _ i']) simp
  qed
next
  case (Suc n)
  have iL: "i < length (ix_table m)" using Suc.prems(1) by simp
  have nk: "fd \<noteq> kNpos \<longleftrightarrow> (\<exists>i' < i. fd = of_nat (pr m k i') \<and> e_state (ix_table m ! pr m k i') = kDeleted)"
    using Suc.prems(3) kNpos_not_pr[OF s] by auto
  show ?case
  proof (cases "e_state (ix_table m ! pr m k i)")
    case kEmpty
    show ?thesis
    proof (cases "fd = kNpos")
      case True
      have "Insert_loop m k v (of_nat (pr m k i)) fd (Suc n) = InsertAt m (of_nat (pr m k i)) k v"
        using kEmpty True by (simp add: unat_pr[OF s] Let_def)
      then show ?thesis using kEmpty iL Suc.prems(2) by (intro exI[of _ i]) simp
    next
      case False
      with nk obtain i' where i': "i' < i" "fd = of_nat (pr m k i')"
        "e_state (ix_table m ! pr m k i') = kDeleted" by blast
      have "Insert_loop m k v (of_nat (pr m k i)) fd (Suc n) = InsertAt m (of_nat (pr m k i')) k v"
        using kEmpty False i'(2) by (simp add: unat_pr[OF s] Let_def)
      moreover have "\<forall>i'' < i'. e_state (ix_table m ! pr m k i'') \<noteq> kEmpty"
        using Suc.prems(2) i'(1) by simp
      ultimately show ?thesis using i' iL by (intro exI[of _ i']) simp
    qed
  next
    case kDeleted
    let ?fd = "if fd = kNpos then of_nat (pr m k i) else fd"
    have step: "Insert_loop m k v (of_nat (pr m k i)) fd (Suc n)
        = Insert_loop m k v (of_nat (pr m k (Suc i))) ?fd n"
      using kDeleted by (simp add: unat_pr[OF s] NextIndex_eq[OF s] Let_def)
    have p1: "Suc i + n = length (ix_table m)" using Suc.prems(1) by simp
    have p2: "\<forall>i' < Suc i. e_state (ix_table m ! pr m k i') \<noteq> kEmpty"
      using Suc.prems(2) kDeleted by (auto simp: less_Suc_eq)
    have p3: "(?fd = kNpos \<and> (\<forall>i' < Suc i. e_state (ix_table m ! pr m k i') = kOccupied))
           \<or> (\<exists>i' < Suc i. ?fd = of_nat (pr m k i') \<and> e_state (ix_table m ! pr m k i') = kDeleted)"
    proof (cases "fd = kNpos")
      case True
      then show ?thesis using kDeleted by (intro disjI2 exI[of _ i]) simp
    next
      case False
      with nk obtain i' where i': "i' < i" "fd = of_nat (pr m k i')"
        "e_state (ix_table m ! pr m k i') = kDeleted" by blast
      then show ?thesis using False by (intro disjI2 exI[of _ i']) simp
    qed
    from Suc.IH[OF p1 p2 p3] step show ?thesis by simp
  next
    case kOccupied
    have "\<not> occ_at m (pr m k i) k" using ab by blast
    then have ne: "e_key (ix_table m ! pr m k i) \<noteq> k"
      using kOccupied pr_lt[OF s, of k i] by (simp add: occ_at_def)
    have step: "Insert_loop m k v (of_nat (pr m k i)) fd (Suc n)
        = Insert_loop m k v (of_nat (pr m k (Suc i))) fd n"
      using kOccupied ne by (simp add: unat_pr[OF s] NextIndex_eq[OF s] Let_def)
    have p1: "Suc i + n = length (ix_table m)" using Suc.prems(1) by simp
    have p2: "\<forall>i' < Suc i. e_state (ix_table m ! pr m k i') \<noteq> kEmpty"
      using Suc.prems(2) kOccupied by (auto simp: less_Suc_eq)
    have p3: "(fd = kNpos \<and> (\<forall>i' < Suc i. e_state (ix_table m ! pr m k i') = kOccupied))
           \<or> (\<exists>i' < Suc i. fd = of_nat (pr m k i') \<and> e_state (ix_table m ! pr m k i') = kDeleted)"
    proof (cases "fd = kNpos")
      case True
      with Suc.prems(3) nk have "\<forall>i' < i. e_state (ix_table m ! pr m k i') = kOccupied"
        by blast
      then show ?thesis using True kOccupied by (auto simp: less_Suc_eq)
    next
      case False
      with nk obtain i' where i': "i' < i" "fd = of_nat (pr m k i')"
        "e_state (ix_table m ! pr m k i') = kDeleted" by blast
      then show ?thesis by (intro disjI2 exI[of _ i']) simp
    qed
    from Suc.IH[OF p1 p2 p3] step show ?thesis by simp
  qed
qed

lemma IndexInsert_absent:
  assumes inv: "index_inv m" and ab: "\<forall>j. \<not> occ_at m j k"
  shows "\<exists>dt < length (ix_table m).
            e_state (ix_table m ! pr m k dt) \<noteq> kOccupied
            \<and> (\<forall>i' < dt. e_state (ix_table m ! pr m k i') \<noteq> kEmpty)
            \<and> IndexInsert m k v = InsertAt m (of_nat (pr m k dt)) k v"
proof -
  have s: "shape m" using inv by (simp add: index_inv_def)
  have "unat (ix_size m) \<le> unat (ix_max_entries m)"
    using inv by (simp add: index_inv_def word_le_nat_alt)
  then have c: "card (occ_set m) < length (ix_table m)"
    using inv by (simp add: index_inv_def)
  have "IndexInsert m k v = Insert_loop m k v (of_nat (pr m k 0)) kNpos (length (ix_table m))"
    by (simp add: IndexInsert_def shape_nonempty[OF s] ProbeStart_eq[OF s])
  with Insert_loop_absent[OF s ab c, of 0 "length (ix_table m)" kNpos v]
  show ?thesis by simp
qed

lemma InsertAt_free:
  assumes s: "shape m" and f: "e_state (ix_table m ! pr m k dt) \<noteq> kOccupied"
  shows "InsertAt m (of_nat (pr m k dt)) k v =
     (if ix_size m < ix_max_entries m then
        (True, m\<lparr>ix_tombstones := (if e_state (ix_table m ! pr m k dt) = kDeleted
                                    then ix_tombstones m - 1 else ix_tombstones m),
                 ix_table := (ix_table m)[pr m k dt :=
                    (ix_table m ! pr m k dt)\<lparr>e_key := k, e_value := v, e_state := kOccupied\<rparr>],
                 ix_size := ix_size m + 1\<rparr>)
      else (False, m))"
  using f by (simp add: InsertAt_def unat_pr[OF s] Let_def CanInsertNew_def)

lemma unat_inc:
  fixes a b :: size_t
  assumes "a < b"
  shows "unat (a + 1) = Suc (unat a)" "a + 1 \<le> b"
proof -
  have "unat a < unat b" using assms by (simp add: word_less_nat_alt)
  moreover have "unat b < 2 ^ LENGTH(64)" by (rule unsigned_less)
  ultimately have "unat a + unat (1 :: size_t) < 2 ^ LENGTH(64)" by simp
  then have "unat (a + 1) = unat a + unat (1 :: size_t)" by (simp only: unat_add_lem)
  then show u: "unat (a + 1) = Suc (unat a)" by simp
  show "a + 1 \<le> b" using \<open>unat a < unat b\<close> u by (simp add: word_le_nat_alt)
qed

lemma unat_dec:
  fixes a b :: size_t
  assumes "0 < unat a" "a \<le> b"
  shows "unat (a - 1) = unat a - 1" "a - 1 \<le> b"
proof -
  have "a \<noteq> 0" using assms(1) by (auto simp: unat_eq_0)
  then show u: "unat (a - 1) = unat a - 1" by (rule unat_minus_one)
  show "a - 1 \<le> b" using assms(2) u by (simp add: word_le_nat_alt)
qed

lemma inv_insert_new:
  assumes inv: "index_inv m" and ab: "\<forall>j. \<not> occ_at m j k"
    and dt: "dt < length (ix_table m)" "e_state (ix_table m ! pr m k dt) \<noteq> kOccupied"
            "\<forall>i < dt. e_state (ix_table m ! pr m k i) \<noteq> kEmpty"
    and room: "ix_size m < ix_max_entries m"
    and m': "m' = m\<lparr>ix_tombstones := X,
                    ix_table := (ix_table m)[pr m k dt :=
                       (ix_table m ! pr m k dt)\<lparr>e_key := k, e_value := v, e_state := kOccupied\<rparr>],
                    ix_size := ix_size m + 1\<rparr>"
  shows "index_inv m'"
    and "occ_at m' j k' \<longleftrightarrow> (j = pr m k dt \<and> k' = k) \<or> (j \<noteq> pr m k dt \<and> occ_at m j k')"
    and "e_value (ix_table m' ! pr m k dt) = v"
    and "j \<noteq> pr m k dt \<Longrightarrow> ix_table m' ! j = ix_table m ! j"
proof -
  let ?t = "pr m k dt"
  let ?L = "length (ix_table m)"
  have s: "shape m" using inv by (simp add: index_inv_def)
  have tL: "?t < ?L" by (rule pr_lt[OF s])
  have len: "length (ix_table m') = ?L" by (simp add: m')
  have pr': "pr m' = pr m" by (intro ext) (simp add: pr_def m')
  have s': "shape m'" using s by (simp add: shape_def m')
  show at_t: "e_value (ix_table m' ! ?t) = v" using tL by (simp add: m')
  show other: "j \<noteq> ?t \<Longrightarrow> ix_table m' ! j = ix_table m ! j" for j by (simp add: m')
  have st_t: "e_state (ix_table m' ! ?t) = kOccupied" "e_key (ix_table m' ! ?t) = k"
    using tL by (simp_all add: m')
  show occ': "occ_at m' j k' \<longleftrightarrow> (j = ?t \<and> k' = k) \<or> (j \<noteq> ?t \<and> occ_at m j k')" for j k'
    using tL st_t other[of j] by (cases "j = ?t") (auto simp add: occ_at_def len)
  have ne: "e_state (ix_table m' ! x) \<noteq> kEmpty" if "e_state (ix_table m ! x) \<noteq> kEmpty" for x
    using that st_t(1) other[of x] by (cases "x = ?t") auto
  have stx: "e_state (ix_table m' ! x) = (if x = ?t then kOccupied else e_state (ix_table m ! x))" for x
    using st_t(1) other[of x] by simp
  have "occ_set m' = insert ?t (occ_set m)"
    using tL by (auto simp add: occ_set_def len stx)
  moreover have "?t \<notin> occ_set m" using dt(2) by (simp add: occ_set_def)
  moreover have "finite (occ_set m)" by (simp add: occ_set_def)
  ultimately have card': "card (occ_set m') = Suc (card (occ_set m))" by simp
  have sz: "unat (ix_size m') = card (occ_set m')" "ix_size m' \<le> ix_max_entries m'"
    using unat_inc[OF room] inv card' by (simp_all add: m' index_inv_def)
  have mx: "unat (ix_max_entries m') < length (ix_table m')"
    using inv by (simp add: m' index_inv_def)
  have chain: "\<exists>d < length (ix_table m'). pr m' k' d = j
              \<and> (\<forall>i < d. e_state (ix_table m' ! pr m' k' i) \<noteq> kEmpty)" if o: "occ_at m' j k'" for j k'
  proof (cases "j = ?t")
    case True
    with o occ' have "k' = k" by auto
    with True dt ne show ?thesis unfolding pr' len by (intro exI[of _ dt]) simp
  next
    case False
    with o occ' have "occ_at m j k'" by auto
    with inv obtain d where "d < ?L" "pr m k' d = j" "\<forall>i < d. e_state (ix_table m ! pr m k' i) \<noteq> kEmpty"
      unfolding index_inv_def by blast
    with ne show ?thesis unfolding pr' len by (intro exI[of _ d]) simp
  qed
  have uniq: "j = j'" if "occ_at m' j k'" "occ_at m' j' k'" for j j' k'
  proof (cases "k' = k")
    case True
    with that ab occ' show ?thesis by auto
  next
    case False
    with that occ' have "occ_at m j k'" "occ_at m j' k'" by auto
    with inv show ?thesis unfolding index_inv_def by blast
  qed
  show "index_inv m'"
    unfolding index_inv_def using s' sz mx chain uniq by blast
qed

lemma inv_erase:
  assumes inv: "index_inv m" and occ: "occ_at m j0 k"
    and m': "m' = m\<lparr>ix_table := (ix_table m)[j0 := (ix_table m ! j0)\<lparr>e_state := kDeleted\<rparr>],
                    ix_size := ix_size m - 1,
                    ix_tombstones := X\<rparr>"
  shows "index_inv m'"
    and "occ_at m' j k' \<longleftrightarrow> j \<noteq> j0 \<and> occ_at m j k'"
    and "j \<noteq> j0 \<Longrightarrow> ix_table m' ! j = ix_table m ! j"
proof -
  let ?L = "length (ix_table m)"
  have s: "shape m" using inv by (simp add: index_inv_def)
  have jL: "j0 < ?L" using occ by (simp add: occ_at_def)
  have len: "length (ix_table m') = ?L" by (simp add: m')
  have pr': "pr m' = pr m" by (intro ext) (simp add: pr_def m')
  have s': "shape m'" using s by (simp add: shape_def m')
  show other: "j \<noteq> j0 \<Longrightarrow> ix_table m' ! j = ix_table m ! j" for j by (simp add: m')
  have st_j: "e_state (ix_table m' ! j0) = kDeleted" using jL by (simp add: m')
  show occ': "occ_at m' j k' \<longleftrightarrow> j \<noteq> j0 \<and> occ_at m j k'" for j k'
    using jL st_j other[of j] by (cases "j = j0") (auto simp add: occ_at_def len)
  have ne: "e_state (ix_table m' ! x) \<noteq> kEmpty" if "e_state (ix_table m ! x) \<noteq> kEmpty" for x
    using that st_j other[of x] by (cases "x = j0") auto
  have stx: "e_state (ix_table m' ! x) = (if x = j0 then kDeleted else e_state (ix_table m ! x))" for x
    using st_j other[of x] by simp
  have "occ_set m' = occ_set m - {j0}"
    using jL by (auto simp add: occ_set_def len stx)
  moreover have j_in: "j0 \<in> occ_set m" using occ by (simp add: occ_set_def occ_at_def)
  moreover have fin: "finite (occ_set m)" by (simp add: occ_set_def)
  ultimately have card': "card (occ_set m') = card (occ_set m) - 1" by simp
  have "0 < card (occ_set m)" using j_in fin by (auto simp: card_gt_0_iff)
  then have pos: "0 < unat (ix_size m)" using inv by (simp add: index_inv_def)
  have le: "ix_size m \<le> ix_max_entries m" using inv by (simp add: index_inv_def)
  have sz: "unat (ix_size m') = card (occ_set m')" "ix_size m' \<le> ix_max_entries m'"
    using unat_dec[OF pos le] inv card' by (simp_all add: m' index_inv_def)
  have mx: "unat (ix_max_entries m') < length (ix_table m')"
    using inv by (simp add: m' index_inv_def)
  have chain: "\<exists>d < length (ix_table m'). pr m' k' d = j
              \<and> (\<forall>i < d. e_state (ix_table m' ! pr m' k' i) \<noteq> kEmpty)" if o: "occ_at m' j k'" for j k'
  proof -
    from o occ' have "occ_at m j k'" by auto
    with inv obtain d where "d < ?L" "pr m k' d = j" "\<forall>i < d. e_state (ix_table m ! pr m k' i) \<noteq> kEmpty"
      unfolding index_inv_def by blast
    with ne show ?thesis unfolding pr' len by (intro exI[of _ d]) simp
  qed
  have uniq: "j = j'" if "occ_at m' j k'" "occ_at m' j' k'" for j j' k'
  proof -
    from that occ' have "occ_at m j k'" "occ_at m j' k'" by auto
    with inv show ?thesis unfolding index_inv_def by blast
  qed
  show "index_inv m'"
    unfolding index_inv_def using s' sz mx chain uniq by blast
qed

lemma inv_update:
  assumes inv: "index_inv m" and occ: "occ_at m j0 k"
    and m': "m' = m\<lparr>ix_table := (ix_table m)[j0 := (ix_table m ! j0)\<lparr>e_value := v\<rparr>]\<rparr>"
  shows "index_inv m'"
    and "occ_at m' j k' \<longleftrightarrow> occ_at m j k'"
proof -
  let ?L = "length (ix_table m)"
  have s: "shape m" using inv by (simp add: index_inv_def)
  have jL: "j0 < ?L" using occ by (simp add: occ_at_def)
  have len: "length (ix_table m') = ?L" by (simp add: m')
  have pr': "pr m' = pr m" by (intro ext) (simp add: pr_def m')
  have s': "shape m'" using s by (simp add: shape_def m')
  have st: "e_state (ix_table m' ! x) = e_state (ix_table m ! x)"
           "e_key (ix_table m' ! x) = e_key (ix_table m ! x)" for x
    using jL by (cases "x = j0"; simp add: m')+
  show occ': "occ_at m' j k' \<longleftrightarrow> occ_at m j k'" for j k'
    by (simp add: occ_at_def len st)
  have os: "occ_set m' = occ_set m" by (simp add: occ_set_def len st)
  show "index_inv m'"
    using inv unfolding index_inv_def occ' os pr' len st by (simp add: s') (simp add: m')
qed

lemma unat_exp:
  assumes "b \<le> 63"
  shows "unat (2 ^ b :: size_t) = 2 ^ b"
proof -
  have "unat (push_bit b 1 :: size_t) = take_bit 64 (push_bit b (unat (1 :: size_t)))"
    by (simp only: unsigned_push_bit_eq) simp
  also have "\<dots> = take_bit 64 ((2::nat) ^ b)" by (simp add: push_bit_eq_mult)
  also have "\<dots> = 2 ^ b"
    using assms by (intro take_bit_nat_eq_self power_strict_increasing) simp_all
  finally show ?thesis by (simp add: push_bit_eq_mult)
qed

lemma Init_fields:
  "ix_max_entries (Init dk m0 me) = (if me = 0 then 1 else me)"
  "ix_size (Init dk m0 me) = 0"
  "ix_tombstones (Init dk m0 me) = 0"
  "ix_hasher (Init dk m0 me) = ix_hasher m0"
  by (simp_all add: Init_def Let_def)

lemma index_inv_Init:
  assumes me: "unat me \<le> 2 ^ 62"
  shows "index_inv (Init dk m0 me)"
    and "occ_at (Init dk m0 me) j k = False"
proof -
  define me' where "me' = (if me = 0 then 1 else me)"
  have me'1: "1 \<le> unat me'" by (auto simp: me'_def unat_gt_0 Suc_le_eq)
  have me'2: "unat me' \<le> 2 ^ 62" using me by (simp add: me'_def)
  have "unat me' * unat (2 :: size_t) < 2 ^ LENGTH(64)" using me'2 by simp
  then have "unat (me' * 2) = unat me' * unat (2 :: size_t)" by (simp only: unat_mult_lem)
  then have u2: "unat (me' * 2) = 2 * unat me'" by simp
  have "1 < unat (me' * 2)" "unat (me' * 2) \<le> 2 ^ 63" using me'1 me'2 u2 by simp_all
  from NextPowerOfTwo_pow2[OF this] obtain b where
    b: "b \<le> 63" "NextPowerOfTwo (me' * 2) = 2 ^ b" "unat (me' * 2) \<le> 2 ^ b" by blast
  have ub: "unat (2 ^ b :: size_t) = 2 ^ b" using b(1) by (rule unat_exp)
  let ?m = "Init dk m0 me"
  have tbl: "ix_table ?m = replicate (2 ^ b) \<lparr>e_key = dk, e_value = 0, e_state = kEmpty\<rparr>"
    by (simp add: Init_def Let_def me'_def[symmetric] b(2) ub)
  have msk: "ix_mask ?m = mask b"
    by (simp add: Init_def Let_def me'_def[symmetric] b(2) mask_eq_exp_minus_1)
  have s: "shape ?m" unfolding shape_def using b(1) tbl msk by auto
  show no: "occ_at ?m j k = False" for j k
    by (auto simp add: occ_at_def tbl)
  have os: "occ_set ?m = {}" by (auto simp add: occ_set_def tbl)
  have mx: "unat (ix_max_entries ?m) < length (ix_table ?m)"
    using b(3) u2 me'1 by (simp add: tbl Init_fields me'_def[symmetric])
  show "index_inv ?m"
    unfolding index_inv_def using s mx no by (simp add: os Init_fields)
qed

lemma IndexInsert_absent_ok:
  assumes inv: "index_inv m" and ab: "Find m k = None" and room: "ix_size m < ix_max_entries m"
  shows "\<exists>m'. IndexInsert m k v = (True, m') \<and> index_inv m'
           \<and> (\<forall>k'. Find m' k' = (if k' = k then Some v else Find m k'))
           \<and> ix_size m' = ix_size m + 1 \<and> ix_max_entries m' = ix_max_entries m
           \<and> ix_hasher m' = ix_hasher m \<and> length (ix_table m') = length (ix_table m)"
proof -
  have s: "shape m" using inv by (simp add: index_inv_def)
  have ab': "\<forall>j. \<not> occ_at m j k" using ab Find_None_iff[OF inv] by simp
  from IndexInsert_absent[OF inv ab', of v] obtain dt where
    dt: "dt < length (ix_table m)" "e_state (ix_table m ! pr m k dt) \<noteq> kOccupied"
        "\<forall>i' < dt. e_state (ix_table m ! pr m k i') \<noteq> kEmpty"
        "IndexInsert m k v = InsertAt m (of_nat (pr m k dt)) k v" by blast
  define m' where "m' = m\<lparr>ix_tombstones := (if e_state (ix_table m ! pr m k dt) = kDeleted
                                    then ix_tombstones m - 1 else ix_tombstones m),
                 ix_table := (ix_table m)[pr m k dt :=
                    (ix_table m ! pr m k dt)\<lparr>e_key := k, e_value := v, e_state := kOccupied\<rparr>],
                 ix_size := ix_size m + 1\<rparr>"
  have r: "IndexInsert m k v = (True, m')"
    using dt(4) InsertAt_free[OF s dt(2), of v] room by (simp add: m'_def)
  note n = inv_insert_new[OF inv ab' dt(1-3) room m'_def]
  have f: "Find m' k' = (if k' = k then Some v else Find m k')" for k'
  proof (cases "k' = k")
    case True
    have "occ_at m' (pr m k dt) k" using n(2) by simp
    from Find_present[OF n(1) this] n(3) True show ?thesis by simp
  next
    case False
    show ?thesis
    proof (cases "Find m k'")
      case None
      then have "\<forall>j. \<not> occ_at m j k'" using Find_None_iff[OF inv] by simp
      then have "\<forall>j. \<not> occ_at m' j k'" using n(2) False by simp
      then have "Find m' k' = None" using Find_None_iff[OF n(1)] by simp
      with None False show ?thesis by simp
    next
      case (Some p)
      then obtain j where j: "occ_at m j k'" "e_value (ix_table m ! j) = p"
        using Find_iff[OF inv] by blast
      then have jt: "j \<noteq> pr m k dt" using dt(2) by (auto simp: occ_at_def)
      then have "occ_at m' j k'" using n(2) j(1) by simp
      from Find_present[OF n(1) this] n(4)[OF jt] j(2) Some False show ?thesis by simp
    qed
  qed
  show ?thesis using r n(1) f by (intro exI[of _ m']) (simp add: m'_def)
qed

lemma IndexInsert_absent_full:
  assumes inv: "index_inv m" and ab: "Find m k = None" and full: "\<not> ix_size m < ix_max_entries m"
  shows "IndexInsert m k v = (False, m)"
proof -
  have s: "shape m" using inv by (simp add: index_inv_def)
  have ab': "\<forall>j. \<not> occ_at m j k" using ab Find_None_iff[OF inv] by simp
  from IndexInsert_absent[OF inv ab', of v] obtain dt where
    dt: "e_state (ix_table m ! pr m k dt) \<noteq> kOccupied"
        "IndexInsert m k v = InsertAt m (of_nat (pr m k dt)) k v" by blast
  show ?thesis using dt(2) InsertAt_free[OF s dt(1), of v] full by simp
qed

lemma IndexInsert_existing:
  assumes inv: "index_inv m" and pres: "Find m k = Some p"
  shows "\<exists>m'. IndexInsert m k v = (True, m') \<and> index_inv m'
           \<and> (\<forall>k'. Find m' k' = (if k' = k then Some v else Find m k'))
           \<and> ix_size m' = ix_size m \<and> ix_max_entries m' = ix_max_entries m
           \<and> ix_hasher m' = ix_hasher m \<and> length (ix_table m') = length (ix_table m)"
proof -
  from pres obtain j0 where j0: "occ_at m j0 k" using Find_iff[OF inv] by blast
  define m' where "m' = m\<lparr>ix_table := (ix_table m)[j0 := (ix_table m ! j0)\<lparr>e_value := v\<rparr>]\<rparr>"
  have r: "IndexInsert m k v = (True, m')" using IndexInsert_at[OF inv j0] by (simp add: m'_def)
  note n = inv_update[OF inv j0 m'_def]
  have jL: "j0 < length (ix_table m)" using j0 by (simp add: occ_at_def)
  have f: "Find m' k' = (if k' = k then Some v else Find m k')" for k'
  proof (cases "k' = k")
    case True
    have "occ_at m' j0 k" using n(2) j0 by simp
    from Find_present[OF n(1) this] jL True show ?thesis by (simp add: m'_def)
  next
    case False
    show ?thesis
    proof (cases "Find m k'")
      case None
      then have "\<forall>j. \<not> occ_at m' j k'" using Find_None_iff[OF inv] n(2) by simp
      then have "Find m' k' = None" using Find_None_iff[OF n(1)] by simp
      with None False show ?thesis by simp
    next
      case (Some q)
      then obtain j where j: "occ_at m j k'" "e_value (ix_table m ! j) = q"
        using Find_iff[OF inv] by blast
      then have jt: "j \<noteq> j0" using j0 False by (auto simp: occ_at_def)
      have "occ_at m' j k'" using n(2) j(1) by simp
      from Find_present[OF n(1) this] jt j(2) Some False show ?thesis by (simp add: m'_def)
    qed
  qed
  show ?thesis using r n(1) f by (intro exI[of _ m']) (simp add: m'_def)
qed

lemma IndexErase_present:
  assumes inv: "index_inv m" and pres: "Find m k = Some p"
  shows "\<exists>m'. IndexErase m k = (True, m') \<and> index_inv m'
           \<and> (\<forall>k'. Find m' k' = (if k' = k then None else Find m k'))
           \<and> ix_size m' = ix_size m - 1 \<and> ix_size m \<noteq> 0 \<and> ix_max_entries m' = ix_max_entries m
           \<and> ix_hasher m' = ix_hasher m \<and> length (ix_table m') = length (ix_table m)"
proof -
  from pres obtain j0 where j0: "occ_at m j0 k" using Find_iff[OF inv] by blast
  define m' where "m' = m\<lparr>ix_table := (ix_table m)[j0 := (ix_table m ! j0)\<lparr>e_state := kDeleted\<rparr>],
                    ix_size := ix_size m - 1,
                    ix_tombstones := ix_tombstones m + 1\<rparr>"
  have r: "IndexErase m k = (True, m')" using IndexErase_at[OF inv j0] by (simp add: m'_def)
  note n = inv_erase[OF inv j0 m'_def]
  have "j0 \<in> occ_set m" using j0 by (simp add: occ_set_def occ_at_def)
  moreover have "finite (occ_set m)" by (simp add: occ_set_def)
  ultimately have "0 < card (occ_set m)" by (auto simp: card_gt_0_iff)
  then have nz: "ix_size m \<noteq> 0" using inv by (auto simp add: index_inv_def)
  have f: "Find m' k' = (if k' = k then None else Find m k')" for k'
  proof (cases "k' = k")
    case True
    have "\<forall>j. \<not> occ_at m' j k"
    proof (intro allI notI)
      fix j assume "occ_at m' j k"
      then have "j \<noteq> j0" "occ_at m j k" using n(2) by auto
      with j0 inv show False unfolding index_inv_def by blast
    qed
    then show ?thesis using Find_None_iff[OF n(1)] True by simp
  next
    case False
    show ?thesis
    proof (cases "Find m k'")
      case None
      then have "\<forall>j. \<not> occ_at m' j k'" using Find_None_iff[OF inv] n(2) by simp
      then have "Find m' k' = None" using Find_None_iff[OF n(1)] by simp
      with None False show ?thesis by simp
    next
      case (Some q)
      then obtain j where j: "occ_at m j k'" "e_value (ix_table m ! j) = q"
        using Find_iff[OF inv] by blast
      then have jt: "j \<noteq> j0" using j0 False by (auto simp: occ_at_def)
      have "occ_at m' j k'" using n(2) j(1) jt by simp
      from Find_present[OF n(1) this] n(3)[OF jt] j(2) Some False show ?thesis by simp
    qed
  qed
  show ?thesis using r n(1) f nz by (intro exI[of _ m']) (simp add: m'_def)
qed

lemma IndexErase_absent:
  assumes inv: "index_inv m" and ab: "Find m k = None"
  shows "IndexErase m k = (False, m)"
proof -
  have s: "shape m" using inv by (simp add: index_inv_def)
  have ab': "\<forall>j. \<not> occ_at m j k" using ab Find_None_iff[OF inv] by simp
  show ?thesis by (rule IndexErase_miss[OF s ab'])
qed

lemma Find_Init:
  assumes "unat me \<le> 2 ^ 62"
  shows "Find (Init dk m0 me) k = None"
  using Find_None_iff[OF index_inv_Init(1)[OF assms, of dk m0], of k]
    index_inv_Init(2)[OF assms, of dk m0 _ k] by simp

lemma cache_invD:
  assumes "cache_inv c"
  shows "0 < length (c_slots c)" "length (c_slots c) < 2 ^ 32"
    "index_inv (c_key_to_position c)"
    "unat (ix_max_entries (c_key_to_position c)) = length (c_slots c)"
    "ix_size (c_key_to_position c) = c_size c"
    "unat (c_next_unused c) \<le> length (c_slots c)"
    "distinct (c_free_positions c)"
    "\<And>p. p \<in> set (c_free_positions c) \<Longrightarrow> unat p < unat (c_next_unused c)"
    "\<And>i. i < length (c_slots c) \<Longrightarrow>
           s_occupied (c_slots c ! i) \<noteq> 0
             \<longleftrightarrow> (i < unat (c_next_unused c) \<and> i \<notin> unat ` set (c_free_positions c))"
    "unat (c_size c) + length (c_free_positions c) = unat (c_next_unused c)"
    "\<And>i. i < length (c_slots c) \<Longrightarrow>
           1 \<le> s_generation (c_slots c ! i) \<and> s_generation (c_slots c ! i) \<le> kMaxGeneration"
    "\<And>k p. Find (c_key_to_position c) k = Some p
           \<longleftrightarrow> (unat p < length (c_slots c) \<and> s_occupied (c_slots c ! unat p) \<noteq> 0
                \<and> s_key (c_slots c ! unat p) = k)"
  using assms unfolding cache_inv_def by blast+

lemma unat_kInvalidPosition: "unat kInvalidPosition = 2 ^ 32 - 1"
  by (simp add: kInvalidPosition_def)

lemma valid_pos_not_invalid:
  assumes "unat (pos :: 32 word) < n" "n < 2 ^ 32"
  shows "pos \<noteq> kInvalidPosition"
  using assms unat_kInvalidPosition by auto

lemma unat_inc32:
  fixes a :: "32 word"
  assumes "unat a < n" "n < 2 ^ 32"
  shows "unat (a + 1) = Suc (unat a)"
proof -
  have "unat a + unat (1 :: 32 word) < 2 ^ LENGTH(32)" using assms by simp
  then have "unat (a + 1) = unat a + unat (1 :: 32 word)" by (simp only: unat_add_lem)
  then show ?thesis by simp
qed

lemma cache_inv_occupy:
  assumes inv: "cache_inv c"
    and pos: "unat pos < length (c_slots c)" "s_occupied (c_slots c ! unat pos) = 0"
    and ab: "Find (c_key_to_position c) k = None"
    and ix': "index_inv ix'"
      "\<And>k'. Find ix' k' = (if k' = k then Some pos else Find (c_key_to_position c) k')"
      "ix_size ix' = ix_size (c_key_to_position c) + 1"
      "ix_max_entries ix' = ix_max_entries (c_key_to_position c)"
    and room: "unat (c_size c) < length (c_slots c)"
    and alloc: "(c_free_positions c \<noteq> [] \<and> pos = last (c_free_positions c)
                  \<and> c_free_positions c' = butlast (c_free_positions c)
                  \<and> c_next_unused c' = c_next_unused c)
              \<or> (c_free_positions c = [] \<and> pos = c_next_unused c
                  \<and> c_free_positions c' = []
                  \<and> c_next_unused c' = c_next_unused c + 1)"
    and c': "c_slots c' = (c_slots c)[unat pos :=
                (c_slots c ! unat pos)\<lparr>s_key := k, s_value := v, s_type := ty, s_occupied := 1\<rparr>]"
      "c_key_to_position c' = ix'" "c_size c' = c_size c + 1"
  shows "cache_inv c'"
proof -
  note I = cache_invD[OF inv]
  let ?n = "length (c_slots c)"
  let ?nu = "unat (c_next_unused c)"
  let ?fr = "c_free_positions c"
  have len: "length (c_slots c') = ?n" by (simp add: c')
  have sl_pos: "s_occupied (c_slots c' ! unat pos) \<noteq> 0" "s_key (c_slots c' ! unat pos) = k"
    using pos(1) by (simp_all add: c')
  have sl_other: "c_slots c' ! i = c_slots c ! i" if "i \<noteq> unat pos" for i
    using that by (simp add: c')
  have gen_same: "s_generation (c_slots c' ! i) = s_generation (c_slots c ! i)" if "i < ?n" for i
    using that by (cases "i = unat pos") (simp_all add: c')
  have "unat (ix_size (c_key_to_position c)) < unat (ix_max_entries (c_key_to_position c))"
    using room I(4,5) by simp
  then have lt: "c_size c < ix_max_entries (c_key_to_position c)"
    using I(5) by (simp add: word_less_nat_alt)
  have usz: "unat (c_size c') = Suc (unat (c_size c))"
    using unat_inc(1)[OF lt] by (simp add: c')
  have posnu: "?nu \<le> ?n" by (rule I(6))
  \<comment> \<open>the freelist and the bump cursor after the allocation\<close>
  have fr': "distinct (c_free_positions c') \<and>
       (\<forall>p. p \<in> set (c_free_positions c') \<longrightarrow> unat p < unat (c_next_unused c')) \<and>
       unat (c_size c') + length (c_free_positions c') = unat (c_next_unused c') \<and>
       unat (c_next_unused c') \<le> ?n \<and>
       (\<forall>i. (i < unat (c_next_unused c') \<and> i \<notin> unat ` set (c_free_positions c'))
            \<longleftrightarrow> (i = unat pos \<or> (i < ?nu \<and> i \<notin> unat ` set ?fr)))"
    using alloc
  proof
    assume a: "?fr \<noteq> [] \<and> pos = last ?fr \<and> c_free_positions c' = butlast ?fr
                  \<and> c_next_unused c' = c_next_unused c"
    then obtain bs where bs: "?fr = bs @ [pos]"
      by (metis append_butlast_last_id)
    have bl: "butlast ?fr = bs" by (simp add: bs)
    have f'e: "c_free_positions c' = bs" and nu'e: "c_next_unused c' = c_next_unused c"
      using a bl by simp_all
    have d: "distinct (bs @ [pos])" using I(7) bs by simp
    then have d1: "distinct bs" and d2: "pos \<notin> set bs" by simp_all
    have s: "set ?fr = insert pos (set bs)" by (simp add: bs)
    have npos: "unat pos \<notin> unat ` set bs"
    proof
      assume "unat pos \<in> unat ` set bs"
      then obtain q where q: "q \<in> set bs" "unat pos = unat q" by blast
      from q(2) have "pos = q" by (simp add: word_unat_eq_iff)
      with d2 q(1) show False by simp
    qed
    have "pos \<in> set ?fr" by (simp add: s)
    then have plt: "unat pos < ?nu" by (rule I(8))
    have l: "length ?fr = Suc (length bs)" by (simp add: bs)
    have c1: "\<forall>p. p \<in> set bs \<longrightarrow> unat p < ?nu" using I(8) by (simp add: s)
    have c2: "unat (c_size c') + length bs = ?nu" using I(10) usz by (simp add: l)
    have c3: "\<forall>i. (i < ?nu \<and> i \<notin> unat ` set bs)
            \<longleftrightarrow> (i = unat pos \<or> (i < ?nu \<and> i \<notin> unat ` set ?fr))"
      using npos plt unfolding s by auto
    show ?thesis unfolding f'e nu'e using d1 c1 c2 posnu c3 by blast
  next
    assume a: "?fr = [] \<and> pos = c_next_unused c \<and> c_free_positions c' = []
                  \<and> c_next_unused c' = c_next_unused c + 1"
    have f'e: "c_free_positions c' = []" and nu'e: "c_next_unused c' = c_next_unused c + 1"
      and fe: "?fr = []" and pe: "unat pos = ?nu"
      using a by simp_all
    have un: "unat (c_next_unused c + 1) = Suc ?nu"
      using unat_inc32[OF _ I(2), of "c_next_unused c"] pos(1) pe by simp
    have c2: "unat (c_size c') = Suc ?nu" using I(10) usz fe by simp
    have c4: "Suc ?nu \<le> ?n" using pos(1) pe by simp
    have c3: "\<forall>i. (i < Suc ?nu) \<longleftrightarrow> (i = unat pos \<or> i < ?nu)" unfolding pe by auto
    show ?thesis unfolding f'e nu'e un fe using c2 c4 c3 by simp
  qed
  have occ': "s_occupied (c_slots c' ! i) \<noteq> 0
             \<longleftrightarrow> (i < unat (c_next_unused c') \<and> i \<notin> unat ` set (c_free_positions c'))"
    if "i < length (c_slots c')" for i
  proof (cases "i = unat pos")
    case True
    with sl_pos(1) fr' that len show ?thesis by simp
  next
    case False
    have "(i < unat (c_next_unused c') \<and> i \<notin> unat ` set (c_free_positions c'))
            \<longleftrightarrow> (i < ?nu \<and> i \<notin> unat ` set ?fr)" using fr' False by simp
    with sl_other[OF False] I(9)[of i] that len show ?thesis by simp
  qed
  have rel: "Find (c_key_to_position c') k' = Some p
           \<longleftrightarrow> (unat p < length (c_slots c') \<and> s_occupied (c_slots c' ! unat p) \<noteq> 0
                \<and> s_key (c_slots c' ! unat p) = k')" for k' p
  proof (cases "p = pos")
    case True
    have "\<not> (unat pos < ?n \<and> s_occupied (c_slots c ! unat pos) \<noteq> 0 \<and> s_key (c_slots c ! unat pos) = k')"
      using pos(2) by simp
    then have "Find (c_key_to_position c) k' \<noteq> Some pos" using I(12)[of k' pos] by simp
    then show ?thesis using True sl_pos pos(1) len by (auto simp add: c'(2) ix'(2))
  next
    case False
    then have ne: "unat p \<noteq> unat pos" by (simp add: word_unat_eq_iff)
    have "Find (c_key_to_position c) k \<noteq> Some p" using ab by simp
    then have nk: "\<not> (unat p < ?n \<and> s_occupied (c_slots c ! unat p) \<noteq> 0 \<and> s_key (c_slots c ! unat p) = k)"
      using I(12)[of k p] by simp
    show ?thesis
      using False nk I(12)[of k' p] sl_other[OF ne] len by (auto simp add: c'(2) ix'(2))
  qed
  have gen: "1 \<le> s_generation (c_slots c' ! i) \<and> s_generation (c_slots c' ! i) \<le> kMaxGeneration"
    if "i < length (c_slots c')" for i
    using that gen_same[of i] I(11)[of i] len by simp
  show ?thesis
    unfolding cache_inv_def
    using I(1,2) len ix'(1) I(4) ix'(3,4) I(5) fr' occ' rel gen
    by (simp add: c'(2,3))
qed

lemma ValidateHandle_eq:
  "ValidateHandle c h = (if valid_handle c h then Position h else kInvalidPosition)"
  by (simp add: ValidateHandle_def valid_handle_def IsNull_def Let_def not_le)

lemma ValidateHandle_valid_iff:
  assumes "length (c_slots c) < 2 ^ 32"
  shows "ValidateHandle c h \<noteq> kInvalidPosition \<longleftrightarrow> valid_handle c h"
proof (cases "valid_handle c h")
  case True
  then have "unat (Position h) < length (c_slots c)" by (simp add: valid_handle_def)
  from valid_pos_not_invalid[OF this assms] True show ?thesis by (simp add: ValidateHandle_eq)
next
  case False
  then show ?thesis by (simp add: ValidateHandle_eq)
qed

lemma kMaxGeneration_val: "kMaxGeneration = 0xffffff"
  by (simp add: kMaxGeneration_def kGenerationBits_def)

lemma NextGeneration_range:
  "1 \<le> NextGeneration g \<and> NextGeneration g \<le> kMaxGeneration"
proof (cases "g \<ge> kMaxGeneration")
  case True
  then show ?thesis by (simp add: NextGeneration_def kMaxGeneration_val)
next
  case False
  then have lt: "unat g < 16777215" by (simp add: kMaxGeneration_val word_le_nat_alt not_le)
  then have "unat g + unat (1 :: 32 word) < 2 ^ LENGTH(32)" by simp
  then have "unat (g + 1) = unat g + unat (1 :: 32 word)" by (simp only: unat_add_lem)
  then have "unat (g + 1) = Suc (unat g)" by simp
  with lt False show ?thesis
    by (simp add: NextGeneration_def kMaxGeneration_val word_le_nat_alt)
qed

lemma cache_inv_Reserve:
  assumes n: "unat n < 2 ^ 32"
  shows "cache_inv (Reserve dk dv c n)"
proof -
  define n' where "n' = (if n = 0 then 1 else n)"
  have n'0: "n' \<noteq> 0" by (simp add: n'_def)
  have n'1: "0 < unat n'" using n'0 by (simp add: unat_gt_0)
  have n'2: "unat n' < 2 ^ 32" using n by (simp add: n'_def)
  then have n'3: "unat n' \<le> 2 ^ 62" by simp
  let ?c = "Reserve dk dv c n"
  have f: "c_slots ?c = replicate (unat n') (Slot_default dk dv)"
    "c_free_positions ?c = []" "c_next_unused ?c = 0" "c_size ?c = 0"
    "c_key_to_position ?c = Init dk (c_key_to_position c) n'"
    by (simp_all add: Reserve_def Let_def n'_def)
  have ii: "index_inv (c_key_to_position ?c)" unfolding f by (rule index_inv_Init(1)[OF n'3])
  have fn: "Find (c_key_to_position ?c) k = None" for k unfolding f by (rule Find_Init[OF n'3])
  have sl: "s_occupied (c_slots ?c ! i) = 0" "s_generation (c_slots ?c ! i) = 1"
    if "i < unat n'" for i
    using that by (simp_all add: f Slot_default_def)
  show ?thesis
    unfolding cache_inv_def
    using n'1 n'2 ii fn sl n'0
    by (simp add: f(1-4) kMaxGeneration_val) (simp add: f(5) Init_fields)
qed

lemma cache_inv_release:
  assumes inv: "cache_inv c"
    and pos: "unat pos < length (c_slots c)" "s_occupied (c_slots c ! unat pos) \<noteq> 0"
    and ix': "index_inv ix'"
      "\<And>k'. Find ix' k' = (if k' = s_key (c_slots c ! unat pos) then None
                            else Find (c_key_to_position c) k')"
      "ix_size ix' = ix_size (c_key_to_position c) - 1"
      "ix_size (c_key_to_position c) \<noteq> 0"
      "ix_max_entries ix' = ix_max_entries (c_key_to_position c)"
    and c': "c_slots c' = (c_slots c)[unat pos :=
                (c_slots c ! unat pos)\<lparr>s_occupied := 0, s_type := 0,
                   s_generation := NextGeneration (s_generation (c_slots c ! unat pos))\<rparr>]"
      "c_key_to_position c' = ix'" "c_size c' = c_size c - 1"
      "c_free_positions c' = c_free_positions c @ [pos]"
      "c_next_unused c' = c_next_unused c"
  shows "cache_inv c'"
proof -
  note I = cache_invD[OF inv]
  let ?n = "length (c_slots c)"
  let ?nu = "unat (c_next_unused c)"
  let ?fr = "c_free_positions c"
  let ?key = "s_key (c_slots c ! unat pos)"
  have len: "length (c_slots c') = ?n" by (simp add: c')
  have sl_pos: "s_occupied (c_slots c' ! unat pos) = 0" "s_key (c_slots c' ! unat pos) = ?key"
    using pos(1) by (simp_all add: c')
  have sl_other: "c_slots c' ! i = c_slots c ! i" if "i \<noteq> unat pos" for i
    using that by (simp add: c')
  have po: "unat pos < ?nu \<and> unat pos \<notin> unat ` set ?fr" using I(9)[OF pos(1)] pos(2) by simp
  then have pnf: "pos \<notin> set ?fr" by blast
  have d: "distinct (c_free_positions c')" using I(7) pnf by (simp add: c')
  have fl: "unat p < unat (c_next_unused c')" if "p \<in> set (c_free_positions c')" for p
    using that I(8)[of p] po by (auto simp add: c')
  have nz: "c_size c \<noteq> 0" using ix'(4) I(5) by simp
  have usz: "unat (c_size c') = unat (c_size c) - 1" "0 < unat (c_size c)"
    using nz unat_minus_one[OF nz] by (simp_all add: c' unat_gt_0)
  have cnt: "unat (c_size c') + length (c_free_positions c') = unat (c_next_unused c')"
    using I(10) usz by (simp add: c')
  have occ': "s_occupied (c_slots c' ! i) \<noteq> 0
             \<longleftrightarrow> (i < unat (c_next_unused c') \<and> i \<notin> unat ` set (c_free_positions c'))"
    if "i < length (c_slots c')" for i
  proof (cases "i = unat pos")
    case True
    with sl_pos(1) show ?thesis by (simp add: c')
  next
    case False
    with sl_other[OF False] I(9)[of i] that len show ?thesis by (auto simp add: c')
  qed
  have fk: "Find (c_key_to_position c) ?key = Some pos" using I(12)[of ?key pos] pos by simp
  have rel: "Find (c_key_to_position c') k' = Some p
           \<longleftrightarrow> (unat p < length (c_slots c') \<and> s_occupied (c_slots c' ! unat p) \<noteq> 0
                \<and> s_key (c_slots c' ! unat p) = k')" for k' p
  proof (cases "p = pos")
    case True
    have "Find (c_key_to_position c) k' = Some pos \<Longrightarrow> k' = ?key" using I(12)[of k' pos] by simp
    then show ?thesis using True sl_pos(1) by (auto simp add: c'(2) ix'(2))
  next
    case False
    then have ne: "unat p \<noteq> unat pos" by (simp add: word_unat_eq_iff)
    have "Find (c_key_to_position c) ?key \<noteq> Some p" using fk False by simp
    then show ?thesis
      using I(12)[of k' p] sl_other[OF ne] len by (auto simp add: c'(2) ix'(2))
  qed
  have gen: "1 \<le> s_generation (c_slots c' ! i) \<and> s_generation (c_slots c' ! i) \<le> kMaxGeneration"
    if "i < length (c_slots c')" for i
  proof (cases "i = unat pos")
    case True
    with pos(1) NextGeneration_range show ?thesis by (simp add: c')
  next
    case False
    with sl_other[OF False] I(11)[of i] that len show ?thesis by simp
  qed
  have sz: "ix_size ix' = c_size c'" using ix'(3) I(5) by (simp add: c')
  show ?thesis
    unfolding cache_inv_def
    using I(1,2) len ix'(1) I(4) ix'(5) sz d fl I(6) occ' cnt rel gen
    by (simp add: c'(2,5))
qed

lemma Insert_present:
  "Find (c_key_to_position c) k = Some pos \<Longrightarrow> Insert c ty k v = (BuildHandle c pos, c)"
  by (simp add: Insert_def)

lemma Insert_full:
  assumes inv: "cache_inv c" and ab: "Find (c_key_to_position c) k = None"
    and full: "unat (c_size c) = length (c_slots c)"
  shows "Insert c ty k v = (kNull, c)"
proof -
  note I = cache_invD[OF inv]
  have "length (c_free_positions c) = 0" "unat (c_next_unused c) \<ge> length (c_slots c)"
    using I(6,10) full by linarith+
  then have "c_free_positions c = []" "unat (c_next_unused c) \<ge> length (c_slots c)"
    by simp_all
  then have "AllocatePosition c = (kInvalidPosition, c)" by (simp add: AllocatePosition_def)
  then show ?thesis by (simp add: Insert_def ab)
qed

lemma Insert_fresh:
  assumes inv: "cache_inv c" and ab: "Find (c_key_to_position c) k = None"
    and room: "unat (c_size c) < length (c_slots c)"
    and pos: "pos = (if c_free_positions c \<noteq> [] then last (c_free_positions c) else c_next_unused c)"
  shows "unat pos < length (c_slots c) \<and> s_occupied (c_slots c ! unat pos) = 0 \<and>
    (\<exists>c'. Insert c ty k v = (Make ty (s_generation (c_slots c ! unat pos)) pos, c')
       \<and> c_slots c' = (c_slots c)[unat pos :=
            (c_slots c ! unat pos)\<lparr>s_key := k, s_value := v, s_type := ty, s_occupied := 1\<rparr>]
       \<and> c_free_positions c' = butlast (c_free_positions c)
       \<and> c_next_unused c' = (if c_free_positions c \<noteq> [] then c_next_unused c else c_next_unused c + 1)
       \<and> c_size c' = c_size c + 1
       \<and> (\<forall>k'. Find (c_key_to_position c') k' = (if k' = k then Some pos else Find (c_key_to_position c) k'))
       \<and> cache_inv c')"
proof -
  note I = cache_invD[OF inv]
  let ?n = "length (c_slots c)"
  let ?fr = "c_free_positions c"
  define c1 where "c1 = (if ?fr \<noteq> [] then c\<lparr>c_free_positions := butlast ?fr\<rparr>
                          else c\<lparr>c_next_unused := c_next_unused c + 1\<rparr>)"
  have pl: "unat pos < ?n \<and> s_occupied (c_slots c ! unat pos) = 0"
  proof (cases "?fr = []")
    case True
    then have "unat (c_size c) = unat (c_next_unused c)" using I(10) by simp
    with room have lt: "unat (c_next_unused c) < ?n" by simp
    with I(9)[OF lt] True pos show ?thesis by simp
  next
    case False
    then have "pos \<in> set ?fr" using pos by simp
    then have "unat pos < unat (c_next_unused c)" "unat pos \<in> unat ` set ?fr"
      using I(8) by auto
    moreover from this I(6) have "unat pos < ?n" by simp
    ultimately show ?thesis using I(9)[of "unat pos"] by auto
  qed
  then have pv: "pos \<noteq> kInvalidPosition" using valid_pos_not_invalid I(2) by blast
  have al: "AllocatePosition c = (pos, c1)"
  proof (cases "?fr = []")
    case True
    then have "unat (c_size c) = unat (c_next_unused c)" using I(10) by simp
    with room have "\<not> unat (c_next_unused c) \<ge> ?n" by simp
    with True pos show ?thesis by (simp add: AllocatePosition_def c1_def)
  next
    case False
    with pos show ?thesis by (simp add: AllocatePosition_def c1_def)
  qed
  have c1f: "c_slots c1 = c_slots c" "c_key_to_position c1 = c_key_to_position c"
    "c_size c1 = c_size c" "c_free_positions c1 = butlast ?fr"
    "c_next_unused c1 = (if ?fr \<noteq> [] then c_next_unused c else c_next_unused c + 1)"
    by (simp_all add: c1_def)
  have "unat (ix_size (c_key_to_position c)) < unat (ix_max_entries (c_key_to_position c))"
    using room I(4,5) by simp
  then have lt: "ix_size (c_key_to_position c) < ix_max_entries (c_key_to_position c)"
    by (simp add: word_less_nat_alt)
  from IndexInsert_absent_ok[OF I(3) ab lt, of pos] obtain ix' where
    ix': "IndexInsert (c_key_to_position c) k pos = (True, ix')" "index_inv ix'"
      "\<And>k'. Find ix' k' = (if k' = k then Some pos else Find (c_key_to_position c) k')"
      "ix_size ix' = ix_size (c_key_to_position c) + 1"
      "ix_max_entries ix' = ix_max_entries (c_key_to_position c)"
    by blast
  define slot where "slot = (c_slots c ! unat pos)\<lparr>s_key := k, s_value := v, s_type := ty, s_occupied := 1\<rparr>"
  define c' where "c' = c1\<lparr>c_slots := (c_slots c)[unat pos := slot],
                          c_key_to_position := ix', c_size := c_size c + 1\<rparr>"
  have bh: "BuildHandle c' pos = Make ty (s_generation (c_slots c ! unat pos)) pos"
    using pl by (simp add: BuildHandle_def c'_def slot_def)
  have ins: "Insert c ty k v = (Make ty (s_generation (c_slots c ! unat pos)) pos, c')"
    unfolding bh[symmetric]
    by (simp add: Insert_def ab al pv Let_def c1f slot_def[symmetric] ix'(1) c'_def)
  have c'f: "c_slots c' = (c_slots c)[unat pos := slot]" "c_key_to_position c' = ix'"
    "c_size c' = c_size c + 1" "c_free_positions c' = butlast ?fr"
    "c_next_unused c' = (if ?fr \<noteq> [] then c_next_unused c else c_next_unused c + 1)"
    by (simp_all add: c'_def c1f)
  have alloc: "(?fr \<noteq> [] \<and> pos = last ?fr \<and> c_free_positions c' = butlast ?fr
                  \<and> c_next_unused c' = c_next_unused c)
              \<or> (?fr = [] \<and> pos = c_next_unused c \<and> c_free_positions c' = []
                  \<and> c_next_unused c' = c_next_unused c + 1)"
    using pos by (cases "?fr = []") (simp_all add: c'f)
  have inv': "cache_inv c'"
    using pl by (intro cache_inv_occupy[OF inv _ _ ab ix'(2-5) room alloc
          c'f(1)[unfolded slot_def] c'f(2,3)]) simp_all
  show ?thesis
    using pl ins c'f inv' ix'(3) by (simp add: slot_def)
qed

lemma Erase_invalid:
  "\<not> valid_handle c h \<Longrightarrow> Erase c h = (False, c)"
  by (simp add: Erase_def ValidateHandle_eq)

lemma Erase_valid:
  assumes inv: "cache_inv c" and v: "valid_handle c h"
  shows "\<exists>c'. Erase c h = (True, c')
       \<and> c_slots c' = (c_slots c)[unat (Position h) :=
            (c_slots c ! unat (Position h))\<lparr>s_occupied := 0, s_type := 0,
               s_generation := NextGeneration (s_generation (c_slots c ! unat (Position h)))\<rparr>]
       \<and> c_free_positions c' = c_free_positions c @ [Position h]
       \<and> c_next_unused c' = c_next_unused c
       \<and> c_size c' = c_size c - 1
       \<and> (\<forall>k'. Find (c_key_to_position c') k' =
              (if k' = s_key (c_slots c ! unat (Position h)) then None
               else Find (c_key_to_position c) k'))
       \<and> cache_inv c'"
proof -
  note I = cache_invD[OF inv]
  let ?pos = "Position h"
  let ?slot = "c_slots c ! unat ?pos"
  have pl: "unat ?pos < length (c_slots c)" "s_occupied ?slot \<noteq> 0"
    using v by (simp_all add: valid_handle_def)
  have pv: "?pos \<noteq> kInvalidPosition" using valid_pos_not_invalid[OF pl(1) I(2)] .
  have vh: "ValidateHandle c h = ?pos" using v by (simp add: ValidateHandle_eq)
  have fk: "Find (c_key_to_position c) (s_key ?slot) = Some ?pos"
    using I(12)[of "s_key ?slot" ?pos] pl by simp
  from IndexErase_present[OF I(3) fk] obtain ix' where
    ix': "IndexErase (c_key_to_position c) (s_key ?slot) = (True, ix')" "index_inv ix'"
      "\<And>k'. Find ix' k' = (if k' = s_key ?slot then None else Find (c_key_to_position c) k')"
      "ix_size ix' = ix_size (c_key_to_position c) - 1"
      "ix_size (c_key_to_position c) \<noteq> 0"
      "ix_max_entries ix' = ix_max_entries (c_key_to_position c)"
    by blast
  define c' where "c' = c\<lparr>c_key_to_position := ix',
       c_slots := (c_slots c)[unat ?pos := ?slot\<lparr>s_occupied := 0, s_type := 0,
               s_generation := NextGeneration (s_generation ?slot)\<rparr>],
       c_free_positions := c_free_positions c @ [?pos],
       c_size := c_size c - 1\<rparr>"
  have er: "Erase c h = (True, c')"
    by (simp add: Erase_def vh pv Let_def ix'(1) c'_def)
  have c'f: "c_slots c' = (c_slots c)[unat ?pos := ?slot\<lparr>s_occupied := 0, s_type := 0,
               s_generation := NextGeneration (s_generation ?slot)\<rparr>]"
    "c_key_to_position c' = ix'" "c_size c' = c_size c - 1"
    "c_free_positions c' = c_free_positions c @ [?pos]"
    "c_next_unused c' = c_next_unused c"
    by (simp_all add: c'_def)
  have inv': "cache_inv c'"
    by (rule cache_inv_release[OF inv pl ix'(2-6) c'f])
  show ?thesis using er c'f inv' ix'(3) by simp
qed

lemma cache_inv_assign:
  assumes inv: "cache_inv c" and pos: "unat pos < length (c_slots c)"
    and c': "c' = c\<lparr>c_slots := (c_slots c)[unat pos := (c_slots c ! unat pos)\<lparr>s_value := v, s_type := ty\<rparr>]\<rparr>"
  shows "cache_inv c'"
proof -
  have f: "s_occupied (c_slots c' ! i) = s_occupied (c_slots c ! i)"
          "s_key (c_slots c' ! i) = s_key (c_slots c ! i)"
          "s_generation (c_slots c' ! i) = s_generation (c_slots c ! i)" for i
    using pos by (cases "i = unat pos"; simp add: c')+
  have g: "length (c_slots c') = length (c_slots c)" "c_free_positions c' = c_free_positions c"
    "c_next_unused c' = c_next_unused c" "c_size c' = c_size c"
    "c_key_to_position c' = c_key_to_position c"
    by (simp_all add: c')
  show ?thesis using inv unfolding cache_inv_def f g .
qed

lemma InsertOrAssign_present:
  assumes inv: "cache_inv c" and pres: "Find (c_key_to_position c) k = Some pos"
  shows "InsertOrAssign c ty k v =
           (Make ty (s_generation (c_slots c ! unat pos)) pos,
            c\<lparr>c_slots := (c_slots c)[unat pos := (c_slots c ! unat pos)\<lparr>s_value := v, s_type := ty\<rparr>]\<rparr>)"
    and "unat pos < length (c_slots c)"
    and "cache_inv (snd (InsertOrAssign c ty k v))"
proof -
  note I = cache_invD[OF inv]
  show pl: "unat pos < length (c_slots c)" using I(12)[of k pos] pres by simp
  show r: "InsertOrAssign c ty k v =
           (Make ty (s_generation (c_slots c ! unat pos)) pos,
            c\<lparr>c_slots := (c_slots c)[unat pos := (c_slots c ! unat pos)\<lparr>s_value := v, s_type := ty\<rparr>]\<rparr>)"
    using pl by (simp add: InsertOrAssign_def pres Let_def BuildHandle_def)
  show "cache_inv (snd (InsertOrAssign c ty k v))"
    unfolding r snd_conv by (rule cache_inv_assign[OF inv pl refl])
qed

lemma InsertOrAssign_absent:
  "Find (c_key_to_position c) k = None \<Longrightarrow> InsertOrAssign c ty k v = Insert c ty k v"
  by (simp add: InsertOrAssign_def)

lemma size_le_capacity:
  assumes "cache_inv c"
  shows "unat (c_size c) \<le> length (c_slots c)"
  using cache_invD(6,10)[OF assms] by simp

lemma cache_inv_Insert:
  assumes inv: "cache_inv c"
  shows "cache_inv (snd (Insert c ty k v))"
proof (cases "Find (c_key_to_position c) k")
  case (Some pos)
  then show ?thesis using inv by (simp add: Insert_present)
next
  case None
  show ?thesis
  proof (cases "unat (c_size c) = length (c_slots c)")
    case True
    then show ?thesis using Insert_full[OF inv None True] inv by simp
  next
    case False
    then have room: "unat (c_size c) < length (c_slots c)" using size_le_capacity[OF inv] by simp
    from Insert_fresh[OF inv None room refl, of ty v] show ?thesis by auto
  qed
qed

lemma cache_inv_InsertOrAssign:
  assumes inv: "cache_inv c"
  shows "cache_inv (snd (InsertOrAssign c ty k v))"
proof (cases "Find (c_key_to_position c) k")
  case (Some pos)
  then show ?thesis using InsertOrAssign_present(3)[OF inv] by simp
next
  case None
  then show ?thesis using cache_inv_Insert[OF inv] by (simp add: InsertOrAssign_absent)
qed

lemma cache_inv_Erase:
  assumes inv: "cache_inv c"
  shows "cache_inv (snd (Erase c h))"
proof (cases "valid_handle c h")
  case True
  from Erase_valid[OF inv True] show ?thesis by auto
next
  case False
  then show ?thesis using inv by (simp add: Erase_invalid)
qed

lemma reachable_inv: "reachable c \<Longrightarrow> cache_inv c"
proof (induction rule: reachable.induct)
  case (r_new n h default_key default_value)
  then show ?case unfolding FdKVCache_new_def by (rule cache_inv_Reserve)
next
  case (r_Reserve c n default_key default_value)
  then show ?case by (intro cache_inv_Reserve)
next
  case (r_Insert c ty k v)
  then show ?case by (intro cache_inv_Insert)
next
  case (r_InsertOrAssign c ty k v)
  then show ?case by (intro cache_inv_InsertOrAssign)
next
  case (r_Erase c h)
  then show ?case by (intro cache_inv_Erase)
qed

lemma index_inv_IndexInsert:
  assumes inv: "index_inv m"
  shows "index_inv (snd (IndexInsert m k v)) \<and> ix_max_entries (snd (IndexInsert m k v)) = ix_max_entries m"
proof (cases "Find m k")
  case None
  show ?thesis
  proof (cases "ix_size m < ix_max_entries m")
    case True
    from IndexInsert_absent_ok[OF inv None True, of v] show ?thesis by auto
  next
    case False
    from IndexInsert_absent_full[OF inv None False, of v] inv show ?thesis by simp
  qed
next
  case (Some p)
  from IndexInsert_existing[OF inv Some, of v] show ?thesis by auto
qed

lemma index_inv_IndexErase:
  assumes inv: "index_inv m"
  shows "index_inv (snd (IndexErase m k)) \<and> ix_max_entries (snd (IndexErase m k)) = ix_max_entries m"
proof (cases "Find m k")
  case None
  from IndexErase_absent[OF inv None] inv show ?thesis by simp
next
  case (Some p)
  from IndexErase_present[OF inv Some] show ?thesis by auto
qed

lemma index_reachable_inv:
  assumes "unat max_entries \<le> 2 ^ 62"
  shows "index_reachable max_entries m \<Longrightarrow>
         index_inv m \<and> ix_max_entries m = (if max_entries = 0 then 1 else max_entries)"
proof (induction rule: index_reachable.induct)
  case (ir_Init default_key h)
  show ?case using index_inv_Init(1)[OF assms] by (simp add: Init_fields)
next
  case (ir_Insert m k v)
  then show ?case using index_inv_IndexInsert[of m k v] by simp
next
  case (ir_Erase m k)
  then show ?case using index_inv_IndexErase[of m k] by simp
qed

text \<open>
  Claim C1 (amended). The source's capacity check \<^verbatim>\<open>CanInsertNew\<close> is
  \<^verbatim>\<open>size_ < max_entries_\<close>: tombstones are not counted. For an index constructed with
  \<open>max_entries \<le> 2^62\<close> (so that doubling it and rounding up to a power of two stays
  inside \<^verbatim>\<open>std::size_t\<close>), in every state reached by inserts and erases, the insert of
  an absent key succeeds exactly when \<open>size < max_entries\<close>, that is, it is refused
  exactly when \<open>size = max_entries\<close>, whatever the number of tombstones; the stored
  \<open>max_entries\<close> is the constructor's argument, with 0 replaced by 1.
\<close>

theorem index_insert_absent_iff:
  assumes "unat max_entries \<le> 2 ^ 62" and "index_reachable max_entries m" and "Find m k = None"
  shows "fst (IndexInsert m k v) = (ix_size m < ix_max_entries m)
         \<and> ix_max_entries m = (if max_entries = 0 then 1 else max_entries)"
proof -
  from index_reachable_inv[OF assms(1,2)] have inv: "index_inv m"
    and mx: "ix_max_entries m = (if max_entries = 0 then 1 else max_entries)" by simp_all
  show ?thesis
  proof (cases "ix_size m < ix_max_entries m")
    case True
    from IndexInsert_absent_ok[OF inv assms(3) True, of v] True mx show ?thesis by auto
  next
    case False
    from IndexInsert_absent_full[OF inv assms(3) False, of v] False mx show ?thesis by simp
  qed
qed

lemma c1_eval:
  "ix_size c1_index = 0" "ix_tombstones c1_index = 1" "ix_max_entries c1_index = 1"
  "Find c1_index 6 = None" "fst (IndexInsert c1_index 6 9)"
  by code_simp+

text \<open>
  The claim as stated fails: after one insert and one erase on an index with
  \<open>max_entries = 1\<close> the size is 0 and there is one tombstone, so
  \<open>size + tombstones = max_entries\<close>, and the insert of an absent key succeeds.
\<close>

theorem index_insert_tombstone_counterexample:
  "ix_size c1_index + ix_tombstones c1_index = ix_max_entries c1_index
   \<and> Find c1_index 6 = None
   \<and> fst (IndexInsert c1_index 6 9)"
  by (simp add: c1_eval)

theorem index_insert_absent_iff_witness:
  "unat (1 :: size_t) \<le> 2 ^ 62 \<and> index_reachable 1 c1_index \<and> Find c1_index 6 = None
   \<and> fst (IndexInsert c1_index 6 9) = (ix_size c1_index < ix_max_entries c1_index)"
proof -
  have r: "index_reachable 1 c1_index"
    unfolding c1_index_def by (intro ir_Erase ir_Insert ir_Init)
  have b: "unat (1 :: size_t) \<le> 2 ^ 62" by simp
  from index_insert_absent_iff[OF b r c1_eval(4), of 9] r c1_eval(4) show ?thesis by simp
qed

lemma Get_eq:
  assumes "length (c_slots c) < 2 ^ 32"
  shows "Get c h = (if valid_handle c h then Some (s_value (c_slots c ! unat (Position h))) else None)"
proof (cases "valid_handle c h")
  case True
  then have "unat (Position h) < length (c_slots c)" by (simp add: valid_handle_def)
  from valid_pos_not_invalid[OF this assms] True show ?thesis
    by (simp add: Get_def ValidateHandle_eq)
next
  case False
  then show ?thesis by (simp add: Get_def ValidateHandle_eq)
qed

lemma gen_in_range:
  fixes g :: "32 word"
  assumes "1 \<le> g" "g \<le> kMaxGeneration"
  shows "g AND mask 24 = g" "unat g mod 2 ^ 24 \<noteq> 0" "g \<noteq> 0" "1 \<le> unat g" "unat g \<le> 2 ^ 24 - 1"
proof -
  show u1: "1 \<le> unat g" using assms(1) by (simp add: word_le_nat_alt)
  show u2: "unat g \<le> 2 ^ 24 - 1" using assms(2) by (simp add: kMaxGeneration_val word_le_nat_alt)
  then have lt: "unat g < 2 ^ 24" by simp
  then have m: "unat g mod 2 ^ 24 = unat g" by simp
  show "unat g mod 2 ^ 24 \<noteq> 0" using m u1 by simp
  show "g \<noteq> 0" using u1 by (auto simp: unat_eq_0)
  have "unat (g AND mask 24) = unat g" using unat_and_mask24[of g] m by simp
  then show "g AND mask 24 = g" by (simp add: word_unat_eq_iff)
qed

lemma Make_fields:
  assumes "1 \<le> g" "g \<le> kMaxGeneration"
  shows "Make ty g p \<noteq> kNull" "Generation (Make ty g p) = g" "Type (Make ty g p) = ty"
    "Position (Make ty g p) = p"
  using gen_in_range(1,2)[OF assms] by (simp_all add: Make_null_iff Generation_Make Type_Make Position_Make)

lemma BuildHandle_valid:
  assumes inv: "cache_inv c" and f: "Find (c_key_to_position c) k = Some pos"
  shows "valid_handle c (BuildHandle c pos)" "BuildHandle c pos \<noteq> kNull"
    "Position (BuildHandle c pos) = pos"
    "Generation (BuildHandle c pos) = s_generation (c_slots c ! unat pos)"
    "Type (BuildHandle c pos) = s_type (c_slots c ! unat pos)"
    "unat pos < length (c_slots c)" "s_key (c_slots c ! unat pos) = k"
proof -
  note I = cache_invD[OF inv]
  have p: "unat pos < length (c_slots c)" "s_occupied (c_slots c ! unat pos) \<noteq> 0"
    "s_key (c_slots c ! unat pos) = k"
    using I(12)[of k pos] f by simp_all
  note M = Make_fields[OF I(11)[OF p(1), THEN conjunct1] I(11)[OF p(1), THEN conjunct2]]
  show "BuildHandle c pos \<noteq> kNull" "Position (BuildHandle c pos) = pos"
    "Generation (BuildHandle c pos) = s_generation (c_slots c ! unat pos)"
    "Type (BuildHandle c pos) = s_type (c_slots c ! unat pos)"
    using M by (simp_all add: BuildHandle_def Let_def)
  then show "valid_handle c (BuildHandle c pos)" using p by (simp add: valid_handle_def)
  show "unat pos < length (c_slots c)" "s_key (c_slots c ! unat pos) = k" using p by simp_all
qed

lemma FindHandle_null_iff:
  assumes inv: "cache_inv c"
  shows "FindHandle c k = kNull \<longleftrightarrow> Find (c_key_to_position c) k = None"
proof (cases "Find (c_key_to_position c) k")
  case None
  then show ?thesis by (simp add: FindHandle_def)
next
  case (Some pos)
  with BuildHandle_valid(2)[OF inv Some] show ?thesis by (simp add: FindHandle_def)
qed

lemma valid_handle_Find:
  assumes inv: "cache_inv c" and v: "valid_handle c h"
  shows "Find (c_key_to_position c) (s_key (c_slots c ! unat (Position h))) = Some (Position h)"
  using cache_invD(12)[OF inv, of "s_key (c_slots c ! unat (Position h))" "Position h"] v
  by (simp add: valid_handle_def)


lemma Reserve_fields:
  "c_slots (Reserve dk dv c n) = replicate (unat (if n = 0 then 1 else n)) (Slot_default dk dv)"
  "c_free_positions (Reserve dk dv c n) = []"
  "c_next_unused (Reserve dk dv c n) = 0"
  "c_size (Reserve dk dv c n) = 0"
  by (simp_all add: Reserve_def Let_def)

lemma Find_none_if_unoccupied:
  assumes inv: "cache_inv c" and "\<And>i. i < length (c_slots c) \<Longrightarrow> s_key (c_slots c ! i) = k \<Longrightarrow> s_occupied (c_slots c ! i) = 0"
  shows "Find (c_key_to_position c) k = None"
proof (cases "Find (c_key_to_position c) k")
  case None
  then show ?thesis .
next
  case (Some p)
  with cache_invD(12)[OF inv, of k p] assms(2)[of "unat p"] show ?thesis by simp
qed

lemma NextGeneration_1: "NextGeneration 1 = 2"
  by (simp add: NextGeneration_def kMaxGeneration_val word_le_nat_alt)

text \<open>
  Claim C3. On a freshly constructed single-owner cache of capacity 4, with any hasher
  and any default key and value: \<open>Insert 1 10 100\<close> returns a handle \<open>H1\<close> with position
  0 and generation 1; \<open>Get H1\<close> yields 100; \<open>Erase H1\<close> returns true; \<open>Get H1\<close> then
  returns null; a second \<open>Insert 1 10 200\<close> returns \<open>H2\<close> with position 0 and generation
  2; \<open>H2 \<noteq> H1\<close>; and \<open>Get H2\<close> yields 200.
\<close>

theorem trace_capacity_4:
  fixes h :: "64 word \<Rightarrow> size_t" and dk dv :: "64 word"
  shows
  "let c0 = FdKVCache_new h dk dv 4;
       H1 = fst (Insert c0 1 10 100); c1 = snd (Insert c0 1 10 100);
       c2 = snd (Erase c1 H1);
       H2 = fst (Insert c2 1 10 200); c3 = snd (Insert c2 1 10 200)
   in Position H1 = 0 \<and> Generation H1 = 1 \<and> Get c1 H1 = Some 100
      \<and> fst (Erase c1 H1) = True \<and> Get c2 H1 = None
      \<and> Position H2 = 0 \<and> Generation H2 = 2 \<and> H2 \<noteq> H1 \<and> Get c3 H2 = Some 200"
proof -
  define c0 where "c0 = FdKVCache_new h dk dv 4"
  have inv0: "cache_inv c0" unfolding c0_def FdKVCache_new_def by (rule cache_inv_Reserve) simp
  have f0: "c_slots c0 = replicate 4 (Slot_default dk dv)" "c_free_positions c0 = []"
    "c_next_unused c0 = 0" "c_size c0 = 0"
    by (simp_all add: c0_def FdKVCache_new_def Reserve_fields)
  have fn0: "Find (c_key_to_position c0) 10 = None"
    by (rule Find_none_if_unoccupied[OF inv0]) (simp add: f0 Slot_default_def)
  have g1: "(1::32 word) \<le> 1" "(1::32 word) \<le> kMaxGeneration" "(1::32 word) \<le> 2" "(2::32 word) \<le> kMaxGeneration"
    by (simp_all add: kMaxGeneration_val)
  note M1 = Make_fields[OF g1(1,2)]
  note M2 = Make_fields[OF g1(3,4)]
  define H1 where "H1 = Make 1 1 (0::32 word)"
  define H2 where "H2 = Make 1 2 (0::32 word)"
  from Insert_fresh[OF inv0 fn0, of 0 1 100] obtain c1 where
    i1: "Insert c0 1 10 100 = (H1, c1)"
    and sl1: "c_slots c1 = (replicate 4 (Slot_default dk dv))[0 :=
            (Slot_default dk dv)\<lparr>s_key := 10, s_value := 100, s_type := 1, s_occupied := 1\<rparr>]"
    and fr1: "c_free_positions c1 = []" and nu1: "c_next_unused c1 = 1" and sz1: "c_size c1 = 1"
    and inv1: "cache_inv c1"
    by (auto simp add: f0 H1_def Slot_default_def)
  have l1: "length (c_slots c1) < 2 ^ 32" by (simp add: sl1)
  have v1: "valid_handle c1 H1"
    by (simp add: valid_handle_def H1_def M1 sl1 Slot_default_def)
  have get1: "Get c1 H1 = Some 100"
    using v1 by (simp add: Get_eq[OF l1]) (simp add: H1_def M1 sl1)
  from Erase_valid[OF inv1 v1] obtain c2 where
    e2: "Erase c1 H1 = (True, c2)"
    and sl2: "c_slots c2 = (c_slots c1)[0 :=
            (c_slots c1 ! 0)\<lparr>s_occupied := 0, s_type := 0,
               s_generation := NextGeneration (s_generation (c_slots c1 ! 0))\<rparr>]"
    and fr2: "c_free_positions c2 = [0]" and nu2: "c_next_unused c2 = 1" and sz2: "c_size c2 = 0"
    and fd2: "\<And>k'. Find (c_key_to_position c2) k' =
              (if k' = s_key (c_slots c1 ! 0) then None else Find (c_key_to_position c1) k')"
    and inv2: "cache_inv c2"
    by (auto simp add: H1_def M1 fr1 nu1 sz1)
  have l2: "length (c_slots c2) < 2 ^ 32" by (simp add: sl2 sl1)
  have "\<not> valid_handle c2 H1"
    by (simp add: valid_handle_def H1_def M1 sl2 sl1)
  then have get2: "Get c2 H1 = None" by (simp add: Get_eq[OF l2])
  have fn2: "Find (c_key_to_position c2) 10 = None" by (simp add: fd2 sl1)
  have gen2: "s_generation (c_slots c2 ! 0) = 2"
    by (simp add: sl2 sl1 Slot_default_def NextGeneration_1)
  have room2: "unat (c_size c2) < length (c_slots c2)" by (simp add: sz2 sl2 sl1)
  have pos2: "(0::32 word) = (if c_free_positions c2 \<noteq> [] then last (c_free_positions c2) else c_next_unused c2)"
    by (simp add: fr2)
  from Insert_fresh[OF inv2 fn2 room2 pos2, of 1 200] obtain c3 where
    i3': "Insert c2 1 10 200 = (Make 1 (s_generation (c_slots c2 ! unat (0::32 word))) 0, c3)"
    and sl3': "c_slots c3 = (c_slots c2)[unat (0::32 word) :=
            (c_slots c2 ! unat (0::32 word))\<lparr>s_key := 10, s_value := 200, s_type := 1, s_occupied := 1\<rparr>]"
    and inv3: "cache_inv c3"
    by blast
  have i3: "Insert c2 1 10 200 = (H2, c3)" using i3' gen2 by (simp add: H2_def)
  have sl3: "c_slots c3 = (c_slots c2)[0 :=
            (c_slots c2 ! 0)\<lparr>s_key := 10, s_value := 200, s_type := 1, s_occupied := 1\<rparr>]"
    using sl3' by simp
  have l3: "length (c_slots c3) < 2 ^ 32" by (simp add: sl3 sl2 sl1)
  have v3: "valid_handle c3 H2"
    using gen2 by (simp add: valid_handle_def H2_def M2 sl3 sl2 sl1)
  have get3: "Get c3 H2 = Some 200"
    using v3 by (simp add: Get_eq[OF l3]) (simp add: H2_def M2 sl3 sl2 sl1)
  have ne: "H2 \<noteq> H1"
  proof
    assume "H2 = H1"
    then have "Generation H2 = Generation H1" by simp
    then show False by (simp add: H1_def H2_def M1 M2)
  qed
  show ?thesis
    unfolding Let_def c0_def[symmetric] i1 fst_conv snd_conv e2 i3
    using get1 get2 get3 ne by (simp add: H1_def H2_def M1 M2)
qed


lemma card_occupied:
  assumes inv: "cache_inv c"
  shows "card {i. i < length (c_slots c) \<and> s_occupied (c_slots c ! i) \<noteq> 0} = unat (c_size c)"
proof -
  note I = cache_invD[OF inv]
  let ?nu = "unat (c_next_unused c)"
  let ?F = "unat ` set (c_free_positions c)"
  have "(i < length (c_slots c) \<and> s_occupied (c_slots c ! i) \<noteq> 0) \<longleftrightarrow> (i < ?nu \<and> i \<notin> ?F)" for i
  proof (cases "i < length (c_slots c)")
    case True
    then show ?thesis using I(9)[OF True] by simp
  next
    case False
    then show ?thesis using I(6) by simp
  qed
  then have e: "{i. i < length (c_slots c) \<and> s_occupied (c_slots c ! i) \<noteq> 0} = {..<?nu} - ?F"
    by auto
  have sub: "?F \<subseteq> {..<?nu}" using I(8) by auto
  have "inj_on unat (set (c_free_positions c))" by (rule inj_onI) (simp add: word_unat_eq_iff)
  then have "card ?F = card (set (c_free_positions c))" by (rule card_image)
  also have "\<dots> = length (c_free_positions c)" using I(7) by (rule distinct_card)
  finally have cf: "card ?F = length (c_free_positions c)" .
  have "card ({..<?nu} - ?F) = card {..<?nu} - card ?F"
    using sub by (intro card_Diff_subset) (auto intro: finite_subset)
  then show ?thesis unfolding e using cf I(10) by simp
qed

lemma length_slots_Insert: "length (c_slots (snd (Insert c ty k v))) = length (c_slots c)"
  by (auto simp add: Insert_def AllocatePosition_def Let_def split: option.splits prod.splits if_splits)

lemma length_slots_InsertOrAssign: "length (c_slots (snd (InsertOrAssign c ty k v))) = length (c_slots c)"
  by (cases "Find (c_key_to_position c) k") (simp_all add: InsertOrAssign_def Let_def length_slots_Insert)

lemma length_slots_Erase: "length (c_slots (snd (Erase c h))) = length (c_slots c)"
  by (auto simp add: Erase_def Let_def split: prod.splits)

text \<open>
  Bounded capacity below \<open>2^32\<close>. In every state of the single-owner cache that is
  reachable from a constructor or \<open>Reserve\<close> call with a capacity below \<open>2^32\<close> (the
  range of the 32-bit position field, whose largest value is the invalid-position
  sentinel), with \<open>C = length (c_slots c)\<close> the capacity: \<open>size \<le> C\<close>; \<open>size\<close> is the number
  of occupied slots; when \<open>size = C\<close> the insert of an absent key returns \<open>kNull\<close> and leaves
  the cache unchanged; and no operation changes the capacity.
\<close>

lemma bounded_capacity:
  assumes r: "reachable c"
  shows "unat (c_size c) \<le> length (c_slots c)
     \<and> unat (c_size c) = card {i. i < length (c_slots c) \<and> s_occupied (c_slots c ! i) \<noteq> 0}
     \<and> (unat (c_size c) = length (c_slots c) \<and> FindHandle c k = kNull
          \<longrightarrow> Insert c ty k v = (kNull, c))
     \<and> length (c_slots (snd (Insert c ty k v))) = length (c_slots c)
     \<and> length (c_slots (snd (InsertOrAssign c ty k v))) = length (c_slots c)
     \<and> length (c_slots (snd (Erase c h))) = length (c_slots c)"
proof -
  note inv = reachable_inv[OF r]
  have "Insert c ty k v = (kNull, c)"
    if "unat (c_size c) = length (c_slots c)" "FindHandle c k = kNull"
    using Insert_full[OF inv _ that(1)] that(2) FindHandle_null_iff[OF inv, of k] by simp
  then show ?thesis
    using size_le_capacity[OF inv] card_occupied[OF inv]
    by (simp add: length_slots_Insert length_slots_InsertOrAssign length_slots_Erase)
qed

lemma capacity_new:
  "length (c_slots (FdKVCache_new hs dk dv n)) = max 1 (unat n)"
  by (auto simp add: FdKVCache_new_def Reserve_fields max_def unat_eq_0 Suc_le_eq unat_gt_0)

lemma reachable_ex_new: "unat n < 2 ^ 32 \<Longrightarrow> reachable (ex_new n)"
  unfolding ex_new_def by (rule r_new)


lemma reachable_ex_full: "reachable ex_full"
  unfolding ex_full_def by (intro r_Insert reachable_ex_new) simp




lemma bounded_capacity_example:
  "reachable ex_full
   \<and> unat (c_size ex_full) = length (c_slots ex_full)
   \<and> FindHandle ex_full 11 = kNull
   \<and> Insert ex_full 1 11 5 = (kNull, ex_full)
   \<and> unat (c_size ex_full) = card {i. i < length (c_slots ex_full) \<and> s_occupied (c_slots ex_full ! i) \<noteq> 0}"
proof -
  have s: "unat (c_size ex_full) = length (c_slots ex_full)" by code_simp
  have f: "FindHandle ex_full 11 = kNull" by code_simp
  from bounded_capacity[OF reachable_ex_full, of 11 1 5] reachable_ex_full s f
  show ?thesis by simp
qed










lemma InsertAt_refuse:
  "\<not> fst (InsertAt m idx k v) \<Longrightarrow> InsertAt m idx k v = (False, m)"
  by (simp add: InsertAt_def Let_def split: if_splits)

lemma Insert_loop_refuse:
  "\<not> fst (Insert_loop m k v idx fd n) \<Longrightarrow> Insert_loop m k v idx fd n = (False, m)"
proof (induction n arbitrary: idx fd)
  case 0
  show ?case
  proof (cases "fd \<noteq> kNpos")
    case True
    then have e: "Insert_loop m k v idx fd 0 = InsertAt m fd k v" by simp
    from "0.prems" have "\<not> fst (InsertAt m fd k v)" unfolding e .
    then show ?thesis unfolding e by (rule InsertAt_refuse)
  next
    case False
    then show ?thesis by simp
  qed
next
  case (Suc n)
  show ?case
  proof (cases "e_state (ix_table m ! unat idx)")
    case kEmpty
    then have e: "Insert_loop m k v idx fd (Suc n)
        = InsertAt m (if fd = kNpos then idx else fd) k v" by (simp add: Let_def)
    from Suc.prems have "\<not> fst (InsertAt m (if fd = kNpos then idx else fd) k v)" unfolding e .
    then show ?thesis unfolding e by (rule InsertAt_refuse)
  next
    case kDeleted
    then have e: "Insert_loop m k v idx fd (Suc n)
        = Insert_loop m k v (NextIndex m idx) (if fd = kNpos then idx else fd) n"
      by (simp add: Let_def)
    from Suc.prems have "\<not> fst (Insert_loop m k v (NextIndex m idx) (if fd = kNpos then idx else fd) n)"
      unfolding e .
    then show ?thesis unfolding e by (rule Suc.IH)
  next
    case kOccupied
    show ?thesis
    proof (cases "e_key (ix_table m ! unat idx) = k")
      case True
      with kOccupied Suc.prems show ?thesis by (simp add: Let_def)
    next
      case False
      with kOccupied have e: "Insert_loop m k v idx fd (Suc n)
          = Insert_loop m k v (NextIndex m idx) fd n"
        by (simp add: Let_def)
      from Suc.prems have "\<not> fst (Insert_loop m k v (NextIndex m idx) fd n)" unfolding e .
      then show ?thesis unfolding e by (rule Suc.IH)
    qed
  qed
qed

lemma IndexInsert_refuse:
  "\<not> fst (IndexInsert m k v) \<Longrightarrow> IndexInsert m k v = (False, m)"
proof (cases "ix_table m = []")
  case True
  then show ?thesis by (simp add: IndexInsert_def)
next
  case False
  then have e: "IndexInsert m k v = Insert_loop m k v (ProbeStart m k) kNpos (length (ix_table m))"
    by (simp add: IndexInsert_def)
  assume "\<not> fst (IndexInsert m k v)"
  then have "\<not> fst (Insert_loop m k v (ProbeStart m k) kNpos (length (ix_table m)))" unfolding e .
  then show ?thesis unfolding e by (rule Insert_loop_refuse)
qed

lemma AllocatePosition_fields:
  assumes "AllocatePosition c = (pos, c1)"
  shows "c_slots c1 = c_slots c" "c_key_to_position c1 = c_key_to_position c" "c_size c1 = c_size c"
  using assms by (auto simp add: AllocatePosition_def split: if_splits)

lemma Insert_refused_unchanged:
  assumes inv: "cache_inv c" and nul: "fst (Insert c ty k v) = kNull"
  shows "snd (Insert c ty k v) = c" "unat (c_size c) = length (c_slots c)"
    "Find (c_key_to_position c) k = None"
proof -
  show ab: "Find (c_key_to_position c) k = None"
  proof (cases "Find (c_key_to_position c) k")
    case None
    then show ?thesis .
  next
    case (Some pos)
    with BuildHandle_valid(2)[OF inv Some] nul show ?thesis by (simp add: Insert_present)
  qed
  show full: "unat (c_size c) = length (c_slots c)"
  proof (rule ccontr)
    assume "unat (c_size c) \<noteq> length (c_slots c)"
    then have room: "unat (c_size c) < length (c_slots c)" using size_le_capacity[OF inv] by simp
    define pos where "pos = (if c_free_positions c \<noteq> [] then last (c_free_positions c) else c_next_unused c)"
    from Insert_fresh[OF inv ab room pos_def, of ty v] obtain
      pl: "unat pos < length (c_slots c)"
      and i: "fst (Insert c ty k v) = Make ty (s_generation (c_slots c ! unat pos)) pos"
      by auto
    note g = cache_invD(11)[OF inv pl]
    from i nul have "Make ty (s_generation (c_slots c ! unat pos)) pos = kNull" by simp
    with Make_fields(1)[OF g[THEN conjunct1] g[THEN conjunct2], of ty pos] show False by simp
  qed
  show "snd (Insert c ty k v) = c" using Insert_full[OF inv ab full] by simp
qed

lemma insert_rollback_path:
  assumes miss: "Find (c_key_to_position c) k = None" and al: "AllocatePosition c = (pos, c1)"
    and pv: "pos \<noteq> kInvalidPosition" and refuse: "\<not> fst (IndexInsert (c_key_to_position c) k pos)"
    and pl: "unat pos < length (c_slots c)" and len: "length (c_slots c) < 2 ^ 32"
    and fr: "s_occupied (c_slots c ! unat pos) = 0"
    and noalias: "\<And>k'. Find (c_key_to_position c) k' \<noteq> Some pos"
  shows "Insert c ty k v =
          (kNull, c1\<lparr>c_slots := (c_slots c)[unat pos :=
                       (c_slots c ! unat pos)\<lparr>s_key := k, s_value := v, s_type := ty,
                                                s_occupied := 0\<rparr>],
                     c_free_positions := c_free_positions c1 @ [pos]\<rparr>)
        \<and> c_size (snd (Insert c ty k v)) = c_size c
        \<and> c_key_to_position (snd (Insert c ty k v)) = c_key_to_position c
        \<and> s_generation (c_slots (snd (Insert c ty k v)) ! unat pos)
            = s_generation (c_slots c ! unat pos)
        \<and> (\<forall>k'. FindHandle (snd (Insert c ty k v)) k' = FindHandle c k')
        \<and> (\<forall>h. valid_handle (snd (Insert c ty k v)) h = valid_handle c h)
        \<and> (\<forall>h. Get (snd (Insert c ty k v)) h = Get c h)"
proof -
  note A = AllocatePosition_fields[OF al]
  note R = IndexInsert_refuse[OF refuse]
  define c' where "c' = c1\<lparr>c_slots := (c_slots c)[unat pos :=
                       (c_slots c ! unat pos)\<lparr>s_key := k, s_value := v, s_type := ty,
                                                s_occupied := 0\<rparr>],
                     c_free_positions := c_free_positions c1 @ [pos]\<rparr>"
  have ins: "Insert c ty k v = (kNull, c')"
    using pl by (simp add: Insert_def miss al pv Let_def A R c'_def)
  have c'f: "c_slots c' = (c_slots c)[unat pos :=
                       (c_slots c ! unat pos)\<lparr>s_key := k, s_value := v, s_type := ty,
                                                s_occupied := 0\<rparr>]"
    "c_key_to_position c' = c_key_to_position c" "c_size c' = c_size c"
    by (simp_all add: c'_def A)
  have l': "length (c_slots c') = length (c_slots c)" by (simp add: c'f)
  have same: "c_slots c' ! i = c_slots c ! i" if "i \<noteq> unat pos" for i
    using that by (simp add: c'f)
  have at: "s_occupied (c_slots c' ! unat pos) = 0"
    "s_generation (c_slots c' ! unat pos) = s_generation (c_slots c ! unat pos)"
    using pl by (simp_all add: c'f)
  have vh: "valid_handle c' h = valid_handle c h" for h
  proof (cases "unat (Position h) = unat pos")
    case True
    then show ?thesis using at(1) fr by (simp add: valid_handle_def)
  next
    case False
    then show ?thesis using same[OF False] by (simp add: valid_handle_def l')
  qed
  have get: "Get c' h = Get c h" for h
  proof (cases "valid_handle c h")
    case True
    then have "unat (Position h) \<noteq> unat pos" using fr by (auto simp: valid_handle_def)
    from same[OF this] True vh[of h] show ?thesis
      using len by (simp add: Get_eq l')
  next
    case False
    with vh[of h] show ?thesis using len by (simp add: Get_eq l')
  qed
  have fh: "FindHandle c' k' = FindHandle c k'" for k'
  proof (cases "Find (c_key_to_position c) k'")
    case None
    then show ?thesis by (simp add: FindHandle_def c'f)
  next
    case (Some p)
    with noalias[of k'] have "p \<noteq> pos" by auto
    then have "unat p \<noteq> unat pos" by (simp add: word_unat_eq_iff)
    from same[OF this] Some show ?thesis by (simp add: FindHandle_def c'f BuildHandle_def)
  qed
  have sz: "c_size c' = c_size c" and ix: "c_key_to_position c' = c_key_to_position c"
    by (simp_all add: c'f)
  have r: "snd (Insert c ty k v) = c'" by (simp add: ins)
  show ?thesis
    unfolding r
  proof (intro conjI allI)
    show "Insert c ty k v =
          (kNull, c1\<lparr>c_slots := (c_slots c)[unat pos :=
                       (c_slots c ! unat pos)\<lparr>s_key := k, s_value := v, s_type := ty,
                                                s_occupied := 0\<rparr>],
                     c_free_positions := c_free_positions c1 @ [pos]\<rparr>)"
      unfolding ins c'_def ..
  qed (rule sz ix at(2) fh vh get)+
qed

lemma rollback_unreachable:
  assumes inv: "cache_inv c" and miss: "Find (c_key_to_position c) k = None"
    and al: "AllocatePosition c = (pos, c1)" and pv: "pos \<noteq> kInvalidPosition"
  shows "fst (IndexInsert (c_key_to_position c) k pos)"
proof -
  note I = cache_invD[OF inv]
  have room: "unat (c_size c) < length (c_slots c)"
  proof (rule ccontr)
    assume "\<not> unat (c_size c) < length (c_slots c)"
    then have full: "unat (c_size c) = length (c_slots c)" using size_le_capacity[OF inv] by simp
    have "length (c_free_positions c) = 0" using I(6,10) full by linarith
    then have fe: "c_free_positions c = []" by simp
    have "unat (c_next_unused c) = length (c_slots c)" using I(6,10) full by linarith
    with fe have "pos = kInvalidPosition" using al by (simp add: AllocatePosition_def)
    with pv show False by simp
  qed
  have "ix_size (c_key_to_position c) < ix_max_entries (c_key_to_position c)"
    using room I(4,5) by (simp add: word_less_nat_alt)
  from IndexInsert_absent_ok[OF I(3) miss this, of pos] show ?thesis by auto
qed










































lemma Reserve_revives_handle:
  "fst (Erase ex_one (FindHandle ex_one 10))
   \<and> Get (snd (Insert (Reserve 0 0 (snd (Erase ex_one (FindHandle ex_one 10))) 4) 1 10 7))
         (FindHandle ex_one 10) = Some 7"
  by code_simp






lemma unat_of_nat_64: "j < 2 ^ 32 \<Longrightarrow> unat (of_nat j :: 64 word) = j"
  by (simp add: unat_of_nat)

lemma unat_of_nat_32: "j < 2 ^ 32 \<Longrightarrow> unat (of_nat j :: 32 word) = j"
  by (simp add: unat_of_nat)

lemma big_inv_new: "big_inv 0 big_new"
proof -
  have u: "unat (2 ^ 32 :: size_t) = 2 ^ 32" by simp
  have le: "unat (2 ^ 32 :: size_t) \<le> 2 ^ 62" by simp
  have ne: "(2 ^ 32 :: size_t) \<noteq> 0" by simp
  have ii: "index_inv (Init (0 :: 64 word) (FlatIndexMap_default (\<lambda>k :: 64 word. k)) (2 ^ 32))"
    by (rule index_inv_Init(1)[OF le])
  have fi: "Find (Init (0 :: 64 word) (FlatIndexMap_default (\<lambda>k :: 64 word. k)) (2 ^ 32)) k = None"
    for k by (rule Find_Init[OF le])
  show ?thesis
    unfolding big_inv_def big_new_def ex_new_def FdKVCache_new_def
    using ii fi ne
    by (simp add: Reserve_fields Reserve_def Let_def Init_fields)
qed

lemma big_step:
  assumes B: "big_inv j c" and j: "j < 2 ^ 32 - 1"
  shows "big_inv (Suc j) (snd (Insert c 1 (of_nat j) 0))"
proof -
  let ?ix = "c_key_to_position c"
  let ?k = "of_nat j :: 64 word"
  let ?pos = "of_nat j :: 32 word"
  from B have len: "length (c_slots c) = 2 ^ 32" and fr: "c_free_positions c = []"
    and nu: "c_next_unused c = ?pos" and sz: "c_size c = of_nat j"
    and inv: "index_inv ?ix" and mx: "ix_max_entries ?ix = 2 ^ 32"
    and isz: "ix_size ?ix = of_nat j"
    and fnd: "\<And>k. Find ?ix k = (if unat k < j then Some (of_nat (unat k)) else None)"
    and sl: "\<And>i. i < 2 ^ 32 \<Longrightarrow> c_slots c ! i = (if i < j then full_slot i else Slot_default 0 0)"
    by (simp_all add: big_inv_def)
  have jl: "j < 2 ^ 32" using j by simp
  have uk: "unat ?k = j" by (rule unat_of_nat_64[OF jl])
  have up: "unat ?pos = j" by (rule unat_of_nat_32[OF jl])
  have ab: "Find ?ix ?k = None" using fnd[of ?k] uk by simp
  have room: "ix_size ?ix < ix_max_entries ?ix"
    unfolding isz mx word_less_nat_alt uk using jl by simp
  from IndexInsert_absent_ok[OF inv ab room, of ?pos] obtain m' where
    ii: "IndexInsert ?ix ?k ?pos = (True, m')" and inv': "index_inv m'"
    and fnd': "\<And>k'. Find m' k' = (if k' = ?k then Some ?pos else Find ?ix k')"
    and isz': "ix_size m' = ix_size ?ix + 1" and mx': "ix_max_entries m' = ix_max_entries ?ix"
    by blast
  have al: "AllocatePosition c = (?pos, c\<lparr>c_next_unused := ?pos + 1\<rparr>)"
    using fr nu up len jl by (simp add: AllocatePosition_def)
  have pv: "?pos \<noteq> kInvalidPosition"
  proof
    assume "?pos = kInvalidPosition"
    then have "unat ?pos = unat kInvalidPosition" by simp
    then show False using j unfolding up by (simp add: kInvalidPosition_def)
  qed
  have dj: "c_slots c ! j = Slot_default 0 0" using sl[OF jl] by simp
  define c' where "c' = snd (Insert c 1 ?k 0)"
  have f': "c_slots c' = (c_slots c)[j := full_slot j]" "c_free_positions c' = []"
    "c_next_unused c' = of_nat (Suc j)" "c_key_to_position c' = m'" "c_size c' = of_nat (Suc j)"
    unfolding c'_def
    by (simp_all add: Insert_def ab al pv Let_def ii up dj fr sz Slot_default_def full_slot_def)
  have fs: "Find m' k = (if unat k < Suc j then Some (of_nat (unat k)) else None)" for k
  proof (cases "k = ?k")
    case True
    then show ?thesis unfolding fnd' by (simp add: uk)
  next
    case False
    then have "unat k \<noteq> j" using uk by (auto simp add: word_unat_eq_iff)
    then have "unat k < Suc j \<longleftrightarrow> unat k < j" by auto
    then show ?thesis unfolding fnd' fnd using False by simp
  qed
  have ss: "c_slots c' ! i = (if i < Suc j then full_slot i else Slot_default 0 0)"
    if "i < 2 ^ 32" for i
  proof (cases "i = j")
    case True
    then show ?thesis using len jl by (simp add: f')
  next
    case False
    then have "i < Suc j \<longleftrightarrow> i < j" by auto
    then show ?thesis using False sl[OF that] by (simp add: f')
  qed
  have "big_inv (Suc j) c'"
    unfolding big_inv_def using len inv' fs ss by (simp add: f' isz' mx' isz mx)
  then show ?thesis by (simp add: c'_def)
qed

lemma big_fill: "j \<le> 2 ^ 32 - 1 \<Longrightarrow> big_inv j (fill big_new j)"
proof (induction j)
  case 0
  show ?case using big_inv_new by simp
next
  case (Suc j)
  then have "big_inv j (fill big_new j)" and "j < 2 ^ 32 - 1" by simp_all
  from big_step[OF this] show ?case by simp
qed

lemma big_inv_full: "big_inv (2 ^ 32 - 1) big_full"
  unfolding big_full_def by (rule big_fill) simp

lemma big_full_refuses:
  "Insert big_full 1 (2 ^ 32 - 1) 0 = (kNull, big_full\<lparr>c_next_unused := 0\<rparr>)"
proof -
  let ?c = big_full
  let ?ix = "c_key_to_position ?c"
  from big_inv_full have len: "length (c_slots ?c) = 2 ^ 32" and fr: "c_free_positions ?c = []"
    and nu: "c_next_unused ?c = of_nat (2 ^ 32 - 1)"
    and fnd: "\<And>k. Find ?ix k = (if unat k < 2 ^ 32 - 1 then Some (of_nat (unat k)) else None)"
    by (simp_all add: big_inv_def)
  have ab: "Find ?ix (2 ^ 32 - 1) = None" unfolding fnd by simp
  have nu': "c_next_unused ?c = 0xffffffff" unfolding nu by simp
  have al: "AllocatePosition ?c = (kInvalidPosition, ?c\<lparr>c_next_unused := 0\<rparr>)"
    by (simp add: AllocatePosition_def fr nu' len kInvalidPosition_def)
  show ?thesis using ab al by (simp add: Insert_def)
qed

lemma big_wrapped_eq: "big_wrapped = big_full\<lparr>c_next_unused := 0\<rparr>"
  using big_full_refuses by (simp add: big_wrapped_def)

lemma alias_inv_big_aliased: "alias_inv big_aliased"
proof -
  let ?c = big_wrapped
  let ?ix = "c_key_to_position ?c"
  let ?k = "2 ^ 32 - 1 :: 64 word"
  from big_inv_full have len: "length (c_slots ?c) = 2 ^ 32" and fr: "c_free_positions ?c = []"
    and sz: "c_size ?c = of_nat (2 ^ 32 - 1)"
    and inv: "index_inv ?ix" and mx: "ix_max_entries ?ix = 2 ^ 32"
    and isz: "ix_size ?ix = of_nat (2 ^ 32 - 1)"
    and fnd: "\<And>k. Find ?ix k = (if unat k < 2 ^ 32 - 1 then Some (of_nat (unat k)) else None)"
    and sl: "\<And>i. i < 2 ^ 32 \<Longrightarrow>
                c_slots ?c ! i = (if i < 2 ^ 32 - 1 then full_slot i else Slot_default 0 0)"
    by (simp_all add: big_inv_def big_wrapped_eq)
  have nu: "c_next_unused ?c = 0" by (simp add: big_wrapped_eq)
  have ab: "Find ?ix ?k = None" unfolding fnd by simp
  have room: "ix_size ?ix < ix_max_entries ?ix" unfolding isz mx by simp
  from IndexInsert_absent_ok[OF inv ab room, of 0] obtain m' where
    ii: "IndexInsert ?ix ?k 0 = (True, m')" and inv': "index_inv m'"
    and fnd': "\<And>k'. Find m' k' = (if k' = ?k then Some 0 else Find ?ix k')"
    and isz': "ix_size m' = ix_size ?ix + 1" and mx': "ix_max_entries m' = ix_max_entries ?ix"
    by blast
  have al: "AllocatePosition ?c = (0, ?c\<lparr>c_next_unused := 1\<rparr>)"
    by (simp add: AllocatePosition_def fr nu len)
  have pv: "(0 :: 32 word) \<noteq> kInvalidPosition" by (simp add: kInvalidPosition_def)
  have s0: "c_slots ?c ! 0 = full_slot 0" using sl[of 0] by simp
  have f': "c_slots big_aliased = (c_slots ?c)[0 := \<lparr>s_key = ?k, s_value = 7, s_generation = 1,
                s_type = 1, s_occupied = 1, s_reserved = 0\<rparr>]"
    "c_free_positions big_aliased = []" "c_next_unused big_aliased = 1"
    "c_key_to_position big_aliased = m'" "c_size big_aliased = 2 ^ 32"
    unfolding big_aliased_def
    using ab al pv ii s0 fr sz by (simp_all add: Insert_def Let_def full_slot_def)
  have fs: "Find m' k = (if k = ?k then Some 0
               else if unat k < 2 ^ 32 - 1 then Some (of_nat (unat k)) else None)" for k
    unfolding fnd' fnd by simp
  have si: "c_slots big_aliased ! i = full_slot i" if "0 < i \<and> i < 2 ^ 32 - 1" for i
    using that sl[of i] by (simp add: f')
  have sN: "c_slots big_aliased ! (2 ^ 32 - 1) = Slot_default 0 0"
    using sl[of "2 ^ 32 - 1"] by (simp add: f')
  have s0': "c_slots big_aliased ! 0 = \<lparr>s_key = ?k, s_value = 7, s_generation = 1, s_type = 1,
                          s_occupied = 1, s_reserved = 0\<rparr>"
    using len by (simp add: f')
  show ?thesis
    unfolding alias_inv_def using len inv' fs si sN s0'
    by (simp add: f' isz' mx' isz mx)
qed

lemma big_aliased_refuses:
  "Insert big_aliased 1 (2 ^ 32) 9 =
     (kNull, big_aliased\<lparr>c_next_unused := 2,
               c_slots := (c_slots big_aliased)[1 := \<lparr>s_key = 2 ^ 32, s_value = 9, s_generation = 1,
                              s_type = 1, s_occupied = 0, s_reserved = 0\<rparr>],
               c_free_positions := [1]\<rparr>)"
proof -
  let ?c = big_aliased
  let ?ix = "c_key_to_position ?c"
  let ?k = "2 ^ 32 :: 64 word"
  from alias_inv_big_aliased have len: "length (c_slots ?c) = 2 ^ 32"
    and fr: "c_free_positions ?c = []" and nu: "c_next_unused ?c = 1"
    and inv: "index_inv ?ix" and mx: "ix_max_entries ?ix = 2 ^ 32"
    and isz: "ix_size ?ix = 2 ^ 32"
    and fnd: "\<And>k. Find ?ix k = (if k = 2 ^ 32 - 1 then Some 0
               else if unat k < 2 ^ 32 - 1 then Some (of_nat (unat k)) else None)"
    and sl: "\<And>i. 0 < i \<and> i < 2 ^ 32 - 1 \<Longrightarrow> c_slots ?c ! i = full_slot i"
    by (simp_all add: alias_inv_def)
  have ab: "Find ?ix ?k = None" unfolding fnd by simp
  have full: "\<not> ix_size ?ix < ix_max_entries ?ix" unfolding isz mx by simp
  note ii = IndexInsert_absent_full[OF inv ab full, of 1]
  have al: "AllocatePosition ?c = (1, ?c\<lparr>c_next_unused := 2\<rparr>)"
    by (simp add: AllocatePosition_def fr nu len)
  have pv: "(1 :: 32 word) \<noteq> kInvalidPosition" by (simp add: kInvalidPosition_def)
  have s1: "c_slots ?c ! Suc 0 = full_slot 1" using sl[of 1] by simp
  show ?thesis
    using ab al pv ii s1 fr by (simp add: Insert_def Let_def full_slot_def)
qed

lemma big_aliased_refused_state:
  "fst (Insert big_aliased 1 (2 ^ 32) 9) = kNull"
  "c_free_positions (snd (Insert big_aliased 1 (2 ^ 32) 9)) = [1]"
  "c_size (snd (Insert big_aliased 1 (2 ^ 32) 9)) = c_size big_aliased"
  "c_key_to_position (snd (Insert big_aliased 1 (2 ^ 32) 9)) = c_key_to_position big_aliased"
  "c_slots (snd (Insert big_aliased 1 (2 ^ 32) 9)) ! 1 =
     \<lparr>s_key = 2 ^ 32, s_value = 9, s_generation = 1, s_type = 1, s_occupied = 0, s_reserved = 0\<rparr>"
proof -
  have len: "length (c_slots big_aliased) = 2 ^ 32"
    using alias_inv_big_aliased by (simp add: alias_inv_def)
  show "fst (Insert big_aliased 1 (2 ^ 32) 9) = kNull"
    "c_free_positions (snd (Insert big_aliased 1 (2 ^ 32) 9)) = [1]"
    "c_size (snd (Insert big_aliased 1 (2 ^ 32) 9)) = c_size big_aliased"
    "c_key_to_position (snd (Insert big_aliased 1 (2 ^ 32) 9)) = c_key_to_position big_aliased"
    "c_slots (snd (Insert big_aliased 1 (2 ^ 32) 9)) ! 1 =
     \<lparr>s_key = 2 ^ 32, s_value = 9, s_generation = 1, s_type = 1, s_occupied = 0, s_reserved = 0\<rparr>"
    using big_aliased_refuses len by simp_all
qed

lemma handle_1_fields:
  "Make 1 1 1 \<noteq> kNull" "Position (Make 1 1 1) = 1" "Type (Make 1 1 1) = 1"
  "Generation (Make 1 1 1) = 1"
proof -
  have r: "(1 :: 32 word) \<le> 1" "(1 :: 32 word) \<le> kMaxGeneration"
    by (simp_all add: kMaxGeneration_val)
  show "Make 1 1 1 \<noteq> kNull" "Position (Make 1 1 1) = 1" "Type (Make 1 1 1) = 1"
    "Generation (Make 1 1 1) = 1"
    using Make_fields[OF r, of 1 1] by simp_all
qed

lemma big_aliased_slot_1: "c_slots big_aliased ! 1 = full_slot 1"
  using alias_inv_big_aliased by (simp add: alias_inv_def)

lemma big_aliased_absent: "FindHandle big_aliased (2 ^ 32) = kNull"
proof -
  have "Find (c_key_to_position big_aliased) (2 ^ 32) = None"
    using alias_inv_big_aliased by (simp add: alias_inv_def)
  then show ?thesis by (simp add: FindHandle_def)
qed

lemma big_aliased_occupied: "occupied_count big_aliased = 2 ^ 32 - 1"
proof -
  let ?c = big_aliased
  from alias_inv_big_aliased have len: "length (c_slots ?c) = 2 ^ 32"
    and s0: "s_occupied (c_slots ?c ! 0) = 1"
    and si: "\<And>i. 0 < i \<and> i < 2 ^ 32 - 1 \<Longrightarrow> c_slots ?c ! i = full_slot i"
    and sN: "c_slots ?c ! (2 ^ 32 - 1) = Slot_default 0 0"
    by (simp_all add: alias_inv_def)
  have occ: "s_occupied (c_slots ?c ! i) \<noteq> 0 \<longleftrightarrow> i < 2 ^ 32 - 1" if "i < 2 ^ 32" for i
  proof (cases "i = 0")
    case True
    then show ?thesis using s0 by simp
  next
    case False
    show ?thesis
    proof (cases "i < 2 ^ 32 - 1")
      case True
      with False si[of i] show ?thesis by (simp add: full_slot_def)
    next
      case False
      with that have "i = 2 ^ 32 - 1" by simp
      then show ?thesis using sN by (simp add: Slot_default_def)
    qed
  qed
  have "(i < length (c_slots ?c) \<and> s_occupied (c_slots ?c ! i) \<noteq> 0) \<longleftrightarrow> i < 2 ^ 32 - 1" for i
  proof (cases "i < 2 ^ 32")
    case True
    then show ?thesis unfolding len using occ[OF True] by simp
  next
    case False
    then show ?thesis unfolding len by simp
  qed
  then have "{i. i < length (c_slots ?c) \<and> s_occupied (c_slots ?c ! i) \<noteq> 0} = {i. i < 2 ^ 32 - 1}"
    by simp
  then have "card {i. i < length (c_slots ?c) \<and> s_occupied (c_slots ?c ! i) \<noteq> 0} = 2 ^ 32 - 1"
    by (simp only: card_Collect_less_nat)
  then show ?thesis by (simp add: occupied_count_def length_filter_conv_card)
qed

text \<open>
  Claim C6, at capacity \<open>2^32\<close>. A single-owner cache is constructed with capacity \<open>2^32\<close>
  and the keys \<open>0, \<dots>, 2^32 - 2\<close> are inserted (\<open>big_full\<close>). The next allocation hands out
  position \<^verbatim>\<open>0xffffffff\<close>, which \<open>Insert\<close> takes for the invalid position, and the 32-bit
  cursor \<^verbatim>\<open>next_unused_\<close> wraps to 0 (\<open>big_wrapped\<close>); the following insert of a new key is
  given the live slot 0 (\<open>big_aliased\<close>). In that state \<open>size\<close> is \<open>2^32\<close>, the capacity,
  while only \<open>2^32 - 1\<close> slots are occupied; and the insert of an absent key returns \<open>kNull\<close>
  but changes the cache: it pushes position 1 onto the freelist.
\<close>

theorem bounded_capacity_overflow:
  "length (c_slots big_aliased) = 2 ^ 32
   \<and> unat (c_size big_aliased) = 2 ^ 32
   \<and> occupied_count big_aliased = 2 ^ 32 - 1
   \<and> FindHandle big_aliased (2 ^ 32) = kNull
   \<and> fst (Insert big_aliased 1 (2 ^ 32) 9) = kNull
   \<and> c_free_positions big_aliased = []
   \<and> c_free_positions (snd (Insert big_aliased 1 (2 ^ 32) 9)) = [1]
   \<and> snd (Insert big_aliased 1 (2 ^ 32) 9) \<noteq> big_aliased"
proof -
  from alias_inv_big_aliased have len: "length (c_slots big_aliased) = 2 ^ 32"
    and sz: "c_size big_aliased = 2 ^ 32" and fr: "c_free_positions big_aliased = []"
    by (simp_all add: alias_inv_def)
  have u: "unat (c_size big_aliased) = 2 ^ 32" unfolding sz by simp
  have ne: "snd (Insert big_aliased 1 (2 ^ 32) 9) \<noteq> big_aliased"
  proof
    assume "snd (Insert big_aliased 1 (2 ^ 32) 9) = big_aliased"
    then have "c_free_positions (snd (Insert big_aliased 1 (2 ^ 32) 9)) = c_free_positions big_aliased"
      by simp
    then show False unfolding big_aliased_refused_state(2) fr by simp
  qed
  show ?thesis
    using len u big_aliased_occupied big_aliased_absent big_aliased_refused_state(1,2) fr ne
    by simp
qed

text \<open>
  Claim C8, at capacity \<open>2^32\<close>. In the state \<open>big_aliased\<close> (capacity \<open>2^32\<close>, reached from
  the constructor by inserts alone) key 1 is stored at position 1 under the handle
  \<open>Make 1 1 1\<close>, through which \<open>Get\<close> reads its value 0. The insert of the absent key \<open>2^32\<close>
  is given position 1, writes the slot, is refused by the index, which is at its logical
  capacity, and rolls back: it returns \<open>kNull\<close> and leaves \<open>size\<close> and the index as they
  were, but the rollback clears \<open>occupied\<close> on the slot of key 1, which now holds the
  refused key and value. \<open>FindHandle\<close> still returns the handle \<open>Make 1 1 1\<close> for key 1, and
  \<open>Get\<close> through that handle returns null.
\<close>

theorem insert_rollback_clears_live_slot:
  "FindHandle big_aliased 1 = Make 1 1 1
   \<and> Get big_aliased (Make 1 1 1) = Some 0
   \<and> FindHandle big_aliased (2 ^ 32) = kNull
   \<and> fst (Insert big_aliased 1 (2 ^ 32) 9) = kNull
   \<and> c_size (snd (Insert big_aliased 1 (2 ^ 32) 9)) = c_size big_aliased
   \<and> FindHandle (snd (Insert big_aliased 1 (2 ^ 32) 9)) 1 = Make 1 1 1
   \<and> Get (snd (Insert big_aliased 1 (2 ^ 32) 9)) (Make 1 1 1) = None
   \<and> s_occupied (c_slots (snd (Insert big_aliased 1 (2 ^ 32) 9)) ! 1) = 0
   \<and> s_key (c_slots (snd (Insert big_aliased 1 (2 ^ 32) 9)) ! 1) = 2 ^ 32
   \<and> c_free_positions (snd (Insert big_aliased 1 (2 ^ 32) 9)) = [1]"
proof -
  let ?c = big_aliased
  let ?c' = "snd (Insert big_aliased 1 (2 ^ 32) 9)"
  note R = big_aliased_refused_state
  note H = handle_1_fields
  from alias_inv_big_aliased have len: "length (c_slots ?c) = 2 ^ 32"
    and f1: "Find (c_key_to_position ?c) 1 = Some 1"
    by (simp_all add: alias_inv_def)
  have len': "length (c_slots ?c') = 2 ^ 32" using big_aliased_refuses len by simp
  have fh: "FindHandle ?c 1 = Make 1 1 1"
    using f1 big_aliased_slot_1 by (simp add: FindHandle_def BuildHandle_def full_slot_def)
  have v: "valid_handle ?c (Make 1 1 1)"
    unfolding valid_handle_def H using H(1) len big_aliased_slot_1 by (simp add: full_slot_def)
  have kp: "(1 :: 32 word) \<noteq> kInvalidPosition" by (simp add: kInvalidPosition_def)
  have g: "Get ?c (Make 1 1 1) = Some 0"
    using v kp big_aliased_slot_1 by (simp add: Get_def ValidateHandle_eq H full_slot_def)
  have fh': "FindHandle ?c' 1 = Make 1 1 1"
    using f1 R(4,5) by (simp add: FindHandle_def BuildHandle_def)
  have nv: "\<not> valid_handle ?c' (Make 1 1 1)"
    unfolding valid_handle_def H using R(5) by simp
  have g': "Get ?c' (Make 1 1 1) = None"
    using nv by (simp add: Get_def ValidateHandle_eq)
  show ?thesis
    using fh g big_aliased_absent R(1,2,3) fh' g' R(5) by simp
qed

end
